theory Spec2Isabelle
  imports Complex_Main "HOL-Library.Word" "HOL-Library.Log_Nat" "HOL-Library.Monad_Syntax"
begin

unbundle bit_operations_syntax

section \<open>IEEE-754 binary floating point, as far as mathOptimizations.h uses it\<close>

text \<open>
  The header computes on C++ \<open>float\<close> (binary32) and, where a \<open>double\<close> literal or
  macro enters an expression, on \<open>double\<close> (binary64).  A \<open>float\<close> object is modelled
  by its 32-bit pattern, so that the \<open>bitTwiddler\<close> union is the identity on the
  pattern; arithmetic decodes the operands to an abstract datum, computes on rationals
  and rounds to nearest, ties to even.  Every operation is evaluated in the format of
  its C++ type (no extended precision, no fused multiply-add).
\<close>

datatype fmt = Fmt (prec: nat) (emax: int)

definition binary32 :: fmt where
  "binary32 = Fmt 24 127"

definition binary64 :: fmt where
  "binary64 = Fmt 53 1023"

definition emin :: "fmt \<Rightarrow> int" where
  "emin f = 1 - emax f"

text \<open>An abstract datum: the sign (\<open>True\<close> is negative) and the magnitude.\<close>

datatype fval = NaN | Inf bool | Fin bool rat

text \<open>The dyadic rational \<open>k * 2^e\<close>, as a fraction of two integers.\<close>

definition dy :: "int \<Rightarrow> int \<Rightarrow> rat" where
  "dy k e = (if 0 \<le> e then Fract (k * 2 ^ nat e) 1 else Fract k (2 ^ nat (- e)))"

definition pow2 :: "int \<Rightarrow> rat" where
  "pow2 e = dy 1 e"

text \<open>\<open>bexp m\<close> is the binary exponent of a positive rational: \<open>2^bexp m \<le> m < 2^(bexp m + 1)\<close>.\<close>

definition bexp :: "rat \<Rightarrow> int" where
  "bexp m = (let k = bitlen (fst (quotient_of m)) - bitlen (snd (quotient_of m))
             in if pow2 k \<le> m then k else k - 1)"

text \<open>The exponent of the unit in the last place of the binade of \<open>m\<close>.\<close>

definition qexp :: "fmt \<Rightarrow> rat \<Rightarrow> int" where
  "qexp f m = max (bexp m) (emin f) - (int (prec f) - 1)"

text \<open>Round to the nearest integer, ties to even.\<close>

definition rhe :: "rat \<Rightarrow> int" where
  "rhe x = (let n = \<lfloor>x\<rfloor>; d = x - of_int n
            in if d < 1 / 2 then n else if 1 / 2 < d then n + 1
               else if even n then n else n + 1)"

text \<open>Round a magnitude to the format, the exponent range unbounded above.\<close>

definition rnd :: "fmt \<Rightarrow> rat \<Rightarrow> rat" where
  "rnd f m = dy (rhe (m / pow2 (qexp f m))) (qexp f m)"

text \<open>Round a magnitude with its sign; what rounds beyond the largest finite number is infinite.\<close>

definition fv_round :: "fmt \<Rightarrow> bool \<Rightarrow> rat \<Rightarrow> fval" where
  "fv_round f s m = (let r = rnd f m in if pow2 (emax f + 1) \<le> r then Inf s else Fin s r)"

text \<open>Round a signed rational; \<open>z\<close> is the sign of an exact zero.\<close>

definition fv_of_rat :: "fmt \<Rightarrow> bool \<Rightarrow> rat \<Rightarrow> fval" where
  "fv_of_rat f z v = (if v = 0 then Fin z 0 else fv_round f (v < 0) \<bar>v\<bar>)"

definition sval :: "bool \<Rightarrow> rat \<Rightarrow> rat" where
  "sval s m = (if s then - m else m)"

fun fv_neg :: "fval \<Rightarrow> fval" where
  "fv_neg NaN = NaN"
| "fv_neg (Inf s) = Inf (\<not> s)"
| "fv_neg (Fin s m) = Fin (\<not> s) m"

fun fv_abs :: "fval \<Rightarrow> fval" where
  "fv_abs NaN = NaN"
| "fv_abs (Inf s) = Inf False"
| "fv_abs (Fin s m) = Fin False m"

fun fv_add :: "fmt \<Rightarrow> fval \<Rightarrow> fval \<Rightarrow> fval" where
  "fv_add f NaN y = NaN"
| "fv_add f x NaN = NaN"
| "fv_add f (Inf s) (Inf t) = (if s = t then Inf s else NaN)"
| "fv_add f (Inf s) (Fin t b) = Inf s"
| "fv_add f (Fin s a) (Inf t) = Inf t"
| "fv_add f (Fin s a) (Fin t b) = fv_of_rat f (s \<and> t) (sval s a + sval t b)"

definition fv_sub :: "fmt \<Rightarrow> fval \<Rightarrow> fval \<Rightarrow> fval" where
  "fv_sub f x y = fv_add f x (fv_neg y)"

fun fv_mul :: "fmt \<Rightarrow> fval \<Rightarrow> fval \<Rightarrow> fval" where
  "fv_mul f NaN y = NaN"
| "fv_mul f x NaN = NaN"
| "fv_mul f (Inf s) (Inf t) = Inf (s \<noteq> t)"
| "fv_mul f (Inf s) (Fin t b) = (if b = 0 then NaN else Inf (s \<noteq> t))"
| "fv_mul f (Fin s a) (Inf t) = (if a = 0 then NaN else Inf (s \<noteq> t))"
| "fv_mul f (Fin s a) (Fin t b) = fv_round f (s \<noteq> t) (a * b)"

fun fv_div :: "fmt \<Rightarrow> fval \<Rightarrow> fval \<Rightarrow> fval" where
  "fv_div f NaN y = NaN"
| "fv_div f x NaN = NaN"
| "fv_div f (Inf s) (Inf t) = NaN"
| "fv_div f (Inf s) (Fin t b) = Inf (s \<noteq> t)"
| "fv_div f (Fin s a) (Inf t) = Fin (s \<noteq> t) 0"
| "fv_div f (Fin s a) (Fin t b) =
     (if b = 0 then (if a = 0 then NaN else Inf (s \<noteq> t)) else fv_round f (s \<noteq> t) (a / b))"

text \<open>The comparison \<open><\<close>: false as soon as an operand is a NaN.\<close>

fun fv_lt :: "fval \<Rightarrow> fval \<Rightarrow> bool" where
  "fv_lt NaN y = False"
| "fv_lt x NaN = False"
| "fv_lt (Inf s) (Inf t) = (s \<and> \<not> t)"
| "fv_lt (Inf s) (Fin t b) = s"
| "fv_lt (Fin s a) (Inf t) = (\<not> t)"
| "fv_lt (Fin s a) (Fin t b) = (sval s a < sval t b)"

fun is_finite :: "fval \<Rightarrow> bool" where
  "is_finite (Fin s m) = True"
| "is_finite x = False"

fun is_nan :: "fval \<Rightarrow> bool" where
  "is_nan NaN = True"
| "is_nan x = False"

subsection \<open>The binary32 interchange encoding\<close>

type_synonym float = "32 word"

text \<open>Bit 31 is the sign, bits 23 to 30 the biased exponent, bits 0 to 22 the fraction.\<close>

definition dec32 :: "float \<Rightarrow> fval" where
  "dec32 w = (let s = bit w 31; e = uint (drop_bit 23 w AND 0xFF); m = uint (w AND 0x7FFFFF)
              in if e = 255 then (if m = 0 then Inf s else NaN)
                 else if e = 0 then Fin s (dy m (- 149))
                 else Fin s (dy (2 ^ 23 + m) (e - 150)))"

definition sign_bit :: "bool \<Rightarrow> float" where
  "sign_bit s = (if s then 0x80000000 else 0)"

text \<open>A NaN produced by an operation is encoded as the quiet NaN \<open>0x7FC00000\<close>.\<close>

fun enc32 :: "fval \<Rightarrow> float" where
  "enc32 NaN = 0x7FC00000"
| "enc32 (Inf s) = sign_bit s + 0x7F800000"
| "enc32 (Fin s m) = sign_bit s +
     (if m < pow2 (- 126) then word_of_int \<lfloor>m * pow2 149\<rfloor>
      else word_of_int ((bexp m + 126) * 2 ^ 23 + \<lfloor>m * pow2 (23 - bexp m)\<rfloor>))"

definition fadd :: "float \<Rightarrow> float \<Rightarrow> float" where
  "fadd a b = enc32 (fv_add binary32 (dec32 a) (dec32 b))"

definition fsub :: "float \<Rightarrow> float \<Rightarrow> float" where
  "fsub a b = enc32 (fv_sub binary32 (dec32 a) (dec32 b))"

definition fmul :: "float \<Rightarrow> float \<Rightarrow> float" where
  "fmul a b = enc32 (fv_mul binary32 (dec32 a) (dec32 b))"

definition fdiv :: "float \<Rightarrow> float \<Rightarrow> float" where
  "fdiv a b = enc32 (fv_div binary32 (dec32 a) (dec32 b))"

definition flt :: "float \<Rightarrow> float \<Rightarrow> bool" where
  "flt a b = fv_lt (dec32 a) (dec32 b)"

text \<open>\<open>std::fabs\<close> clears the sign bit, unary minus flips it.\<close>

definition ffabs :: "float \<Rightarrow> float" where
  "ffabs a = a AND 0x7FFFFFFF"

definition fneg :: "float \<Rightarrow> float" where
  "fneg a = a XOR 0x80000000"

text \<open>A \<open>float\<close> literal \<open>1.5f\<close>: the decimal, rounded to binary32.\<close>

definition flit :: "rat \<Rightarrow> float" where
  "flit r = enc32 (fv_of_rat binary32 False r)"

text \<open>A \<open>double\<close> literal, and the conversion \<open>(float)d\<close> of a \<open>double\<close>.\<close>

definition dlit :: "rat \<Rightarrow> fval" where
  "dlit r = fv_of_rat binary64 False r"

fun fv_cast :: "fmt \<Rightarrow> fval \<Rightarrow> fval" where
  "fv_cast f NaN = NaN"
| "fv_cast f (Inf s) = Inf s"
| "fv_cast f (Fin s m) = fv_round f s m"

definition d2f :: "fval \<Rightarrow> float" where
  "d2f d = enc32 (fv_cast binary32 d)"

subsection \<open>The type \<open>int\<close> and the conversions\<close>

text \<open>
  C++ \<open>int\<close> is 32 bits wide, two's complement: a word read by \<open>sint\<close>.  The union
  \<open>bitTwiddler\<close> overlays an \<open>int\<close> and a \<open>float\<close>, so writing one member and
  reading the other keeps the word.  Signed arithmetic whose result is not
  representable is undefined behaviour, \<open>None\<close> here.
\<close>

type_synonym cint = "32 word"

definition in_int :: "int \<Rightarrow> bool" where
  "in_int i = (- (2 ^ 31) \<le> i \<and> i < 2 ^ 31)"

definition iadd :: "cint \<Rightarrow> cint \<Rightarrow> cint option" where
  "iadd a b = (if in_int (sint a + sint b) then Some (a + b) else None)"

definition isub :: "cint \<Rightarrow> cint \<Rightarrow> cint option" where
  "isub a b = (if in_int (sint a - sint b) then Some (a - b) else None)"

text \<open>\<open>a << k\<close>: undefined when \<open>a\<close> is negative or the result is not representable.\<close>

definition ishl :: "cint \<Rightarrow> nat \<Rightarrow> cint option" where
  "ishl a k = (if 0 \<le> sint a \<and> in_int (sint a * 2 ^ k) then Some (push_bit k a) else None)"

text \<open>\<open>a >> k\<close>: the arithmetic shift (what compilers do for a negative \<open>a\<close>).\<close>

definition ishr :: "cint \<Rightarrow> nat \<Rightarrow> cint" where
  "ishr a k = signed_drop_bit k a"

text \<open>\<open>(int)x\<close> truncates towards zero; undefined for a NaN, an infinity and out of range.\<close>

fun fv_to_int :: "fval \<Rightarrow> int option" where
  "fv_to_int (Fin s m) = Some (if s then - \<lfloor>m\<rfloor> else \<lfloor>m\<rfloor>)"
| "fv_to_int x = None"

definition f2i :: "float \<Rightarrow> cint option" where
  "f2i x = (case fv_to_int (dec32 x) of
              None \<Rightarrow> None
            | Some i \<Rightarrow> if in_int i then Some (word_of_int i) else None)"

text \<open>\<open>(float)i\<close> rounds to nearest; \<open>(double)x\<close> of a \<open>float\<close> is exact.\<close>

definition i2f :: "cint \<Rightarrow> float" where
  "i2f i = enc32 (fv_of_rat binary32 False (of_int (sint i)))"

definition f2d :: "float \<Rightarrow> fval" where
  "f2d x = dec32 x"

section \<open>mathOptimizations.h\<close>

subsection \<open>Constants and macros\<close>

text \<open>The macros of the header, and those of \<open>cmath\<close> that its comment block lists.\<close>

definition M_2PI :: fval where
  "M_2PI = dlit (628318530717958647692 / 10 ^ 20)"

definition M_1_2PI :: fval where
  "M_1_2PI = dlit (15915494309189533577 / 10 ^ 20)"

definition M_4_PI :: fval where
  "M_4_PI = dlit (127323954473516268615 / 10 ^ 20)"

definition M_4_PI2 :: fval where
  "M_4_PI2 = dlit (40528473456935108578 / 10 ^ 20)"

definition M_PI :: fval where
  "M_PI = dlit (314159265358979323846 / 10 ^ 20)"

definition M_PI_2 :: fval where
  "M_PI_2 = dlit (157079632679489661923 / 10 ^ 20)"

definition f_HI :: float where
  "f_HI = flit 129"

definition f_LOW :: float where
  "f_LOW = fneg (flit (12699999 / 10 ^ 5))"

definition LOG_EXP :: cint where
  "LOG_EXP = 0x7F800000"

definition LOG_MANT :: cint where
  "LOG_MANT = 0x7FFFFF"

definition CONST_P :: float where
  "CONST_P = flit (225 / 10 ^ 3)"

definition POLYEXP :: "float \<Rightarrow> float" where
  "POLYEXP x =
     fadd (fmul x (fadd (fmul x (fadd (fmul x (fadd (fmul x (fadd (fmul x
       (flit (18775767 / 10 ^ 10)))
       (flit (89893397 / 10 ^ 10))))
       (flit (55826318 / 10 ^ 9))))
       (flit (24015361 / 10 ^ 8))))
       (flit (69315308 / 10 ^ 8))))
       (flit (99999994 / 10 ^ 8))"

text \<open>
  In \<open>POLYLOG\<close> the literal \<open>2.5988452\<close> has no suffix: from there on the polynomial is
  evaluated in \<open>double\<close>, and the macro's cast converts the result back.
\<close>

definition POLYLOG :: "float \<Rightarrow> float" where
  "POLYLOG x =
     (let t1 = fadd (fmul x (fneg (flit (34436006 / 10 ^ 9)))) (flit (31821337 / 10 ^ 8));
          t2 = fadd (fmul x t1) (fneg (flit (12315303 / 10 ^ 7)));
          t3 = fv_add binary64 (f2d (fmul x t2)) (dlit (25988452 / 10 ^ 7));
          t4 = fv_add binary64 (fv_mul binary64 (f2d x) t3) (f2d (fneg (flit (33241990 / 10 ^ 7))));
          t5 = fv_add binary64 (fv_mul binary64 (f2d x) t4) (f2d (flit (31157899 / 10 ^ 7)))
      in d2f t5)"

text \<open>\<open>std::min(a, b)\<close> is \<open>(b < a) ? b : a\<close> and \<open>std::max(a, b)\<close> is \<open>(a < b) ? b : a\<close>.\<close>

definition fmin :: "float \<Rightarrow> float \<Rightarrow> float" where
  "fmin a b = (if flt b a then b else a)"

definition fmax :: "float \<Rightarrow> float \<Rightarrow> float" where
  "fmax a b = (if flt a b then b else a)"

subsection \<open>The bit-trick primitives\<close>

definition fExp2 :: "float \<Rightarrow> float option" where
  "fExp2 x0 =
     (let x1 = fmin x0 f_HI;
          x = fmax x1 f_LOW
      in do {
        ipart \<leftarrow> f2i (fsub x (flit (1 / 2)));
        let fpart = fsub x (i2f ipart);
        biased \<leftarrow> iadd ipart 127;
        expipart \<leftarrow> ishl biased 23;
        Some (fmul expipart (POLYEXP fpart))
      })"

definition fLog2 :: "float \<Rightarrow> float option" where
  "fLog2 x =
     (let one = flit 1;
          i = x
      in do {
        ex \<leftarrow> isub (ishr (i AND LOG_EXP) 23) 127;
        let e = i2f ex;
        let m = (i AND LOG_MANT) OR one;
        Some (fadd (fmul (POLYLOG m) (fsub m one)) e)
      })"

definition bab2xSqrt :: "float \<Rightarrow> float option" where
  "bab2xSqrt x =
     do {
       t \<leftarrow> iadd (2 ^ 29) (ishr x 1);
       a0 \<leftarrow> isub t (2 ^ 22);
       let a = fadd a0 (fdiv x a0);
       Some (fadd (fmul (flit (25 / 10 ^ 2)) a) (fdiv x a))
     }"

definition iSqrt :: "float \<Rightarrow> float option" where
  "iSqrt x =
     (let xhalf = fmul (flit (5 / 10)) x
      in do {
        a \<leftarrow> isub 0x5f3759df (ishr x 1);
        Some (fmul a (fsub (flit (15 / 10)) (fmul (fmul xhalf a) a)))
      })"

subsection \<open>The build configuration\<close>

text \<open>
  \<open>FAST_MATH\<close> and \<open>FAST_TRIG\<close> are preprocessor symbols.  The standard library
  functions of the other branches are not part of the header: they are parameters.
\<close>

record build =
  FAST_MATH :: bool
  FAST_TRIG :: bool
  std_sin :: "float \<Rightarrow> float"
  std_cos :: "float \<Rightarrow> float"
  std_isqrt :: "float \<Rightarrow> float"
  std_sqrt :: "float \<Rightarrow> float"

definition fISqrt :: "build \<Rightarrow> float \<Rightarrow> float option" where
  "fISqrt B a = (if FAST_MATH B then iSqrt a else Some (std_isqrt B a))"

definition fSqrt :: "build \<Rightarrow> float \<Rightarrow> float option" where
  "fSqrt B a = (if FAST_MATH B then bab2xSqrt a else Some (std_sqrt B a))"

subsection \<open>Sine and cosine\<close>

text \<open>
  The first statement of \<open>fSin\<close>, the float modulo: \<open>x\<close> is compared as a \<open>double\<close>, the
  quotient is truncated to \<open>int\<close> and converted back to \<open>float\<close> for the product.
\<close>

definition fSin_mod :: "float \<Rightarrow> float option" where
  "fSin_mod x =
     (if fv_lt M_2PI (f2d x) \<or> fv_lt (f2d x) (fv_neg M_2PI)
      then do {
        k \<leftarrow> f2i (fmul x (d2f M_1_2PI));
        Some (fsub x (fmul (i2f k) (d2f M_2PI)))
      }
      else Some x)"

text \<open>The second statement: one step of \<open>2\<pi>\<close> towards the interval.\<close>

definition fSin_wrap :: "float \<Rightarrow> float" where
  "fSin_wrap x =
     (if fv_lt (f2d x) (fv_neg M_PI) then fadd x (d2f M_2PI)
      else if fv_lt M_PI (f2d x) then fsub x (d2f M_2PI)
      else x)"

text \<open>The value the parabola is applied to.\<close>

definition fSin_reduce :: "float \<Rightarrow> float option" where
  "fSin_reduce x = do { x1 \<leftarrow> fSin_mod x; Some (fSin_wrap x1) }"

definition fSin_parabola :: "float \<Rightarrow> float" where
  "fSin_parabola x0 =
     (let x = fsub (fmul (d2f M_4_PI) x0) (fmul (fmul (d2f M_4_PI2) x0) (ffabs x0))
      in fadd (fmul CONST_P (fsub (fmul x (ffabs x)) x)) x)"

definition fSin :: "build \<Rightarrow> float \<Rightarrow> float option" where
  "fSin B x =
     (if FAST_TRIG B then do { r \<leftarrow> fSin_reduce x; Some (fSin_parabola r) }
      else Some (std_sin B x))"

definition fCos :: "build \<Rightarrow> float \<Rightarrow> float option" where
  "fCos B x = (if FAST_TRIG B then fSin B (fadd x (d2f M_PI_2)) else Some (std_cos B x))"

subsection \<open>The inverse trigonometric polynomials\<close>

definition fAsin :: "float \<Rightarrow> float" where
  "fAsin x =
     (let x2 = fmul x x
      in fadd x (fmul (fadd (flit (166666667 / 10 ^ 9))
           (fmul (fadd (flit (75 / 10 ^ 3))
             (fmul (fadd (flit (446428571 / 10 ^ 10))
               (fmul (fadd (flit (303819444 / 10 ^ 10))
                 (fmul (flit (22372159 / 10 ^ 9)) x2)) x2)) x2)) x2)) x2))"

definition fAcos :: "float \<Rightarrow> float" where
  "fAcos x = fsub (d2f M_PI_2) (fAsin x)"

definition fAtan :: "float \<Rightarrow> float" where
  "fAtan x =
     (let x2 = fmul x x
      in fsub x (fmul (fadd (flit (333333333333 / 10 ^ 12))
           (fmul (fsub (flit (2 / 10))
             (fmul (fadd (flit (1428571429 / 10 ^ 10))
               (fmul (fsub (flit (111111111111 / 10 ^ 12))
                 (fmul (flit (909090909 / 10 ^ 10)) x2)) x2)) x2)) x2)) x2))"


subsection \<open>The square root as two Babylonian steps\<close>

text \<open>
  The description of \<open>bab2xSqrt\<close> to compare the source with: the same seed, then the
  recurrence \<open>a = 0.5*(a + x/a)\<close> applied twice, every operation in \<open>float\<close>.
\<close>

definition bab2x_seed :: "float \<Rightarrow> float option" where
  "bab2x_seed x = do { t \<leftarrow> iadd (2 ^ 29) (ishr x 1); isub t (2 ^ 22) }"

definition babylonian :: "float \<Rightarrow> float \<Rightarrow> float" where
  "babylonian x a = fmul (flit (5 / 10)) (fadd a (fdiv x a))"

definition bab2x_spec :: "float \<Rightarrow> float option" where
  "bab2x_spec x = do { a \<leftarrow> bab2x_seed x; Some (babylonian x (babylonian x a)) }"

section \<open>Notions used in the statements and proofs\<close>

text \<open>A magnitude is representable when it is \<open>k * 2^e\<close> with \<open>k\<close> of at most \<open>prec\<close> bits and
  \<open>e\<close> not below the exponent of the subnormal numbers.\<close>

definition repr :: "fmt \<Rightarrow> rat \<Rightarrow> bool" where
  "repr f m = (\<exists>k e. m = dy k e \<and> 0 \<le> k \<and> k < 2 ^ prec f \<and> emin f - int (prec f) + 1 \<le> e)"

text \<open>A datum of the format: a NaN, an infinity, or a representable magnitude below \<open>2^(emax+1)\<close>.\<close>

fun valid :: "fmt \<Rightarrow> fval \<Rightarrow> bool" where
  "valid f NaN = True"
| "valid f (Inf s) = True"
| "valid f (Fin s m) = (repr f m \<and> m < pow2 (emax f + 1))"

text \<open>\<open>in_range lo hi x\<close>: the datum \<open>x\<close> is finite and its value lies in the interval.\<close>

fun in_range :: "rat \<Rightarrow> rat \<Rightarrow> fval \<Rightarrow> bool" where
  "in_range lo hi (Fin s m) = (0 \<le> m \<and> lo \<le> sval s m \<and> sval s m \<le> hi)"
| "in_range lo hi x = False"

text \<open>\<open>exact f r\<close>: the rational \<open>r\<close> is the value of a finite number of the format.\<close>

definition exact :: "fmt \<Rightarrow> rat \<Rightarrow> bool" where
  "exact f r = (rnd f \<bar>r\<bar> = \<bar>r\<bar> \<and> \<bar>r\<bar> < pow2 (emax f + 1))"

section \<open>Properties of the arithmetic\<close>

subsection \<open>Powers of two and the binary exponent\<close>

lemma dy_eq: "dy k e = of_int k * 2 powi e"
proof (cases "0 \<le> e")
  case True
  have "dy k e = Fract (k * 2 ^ nat e) 1" using True by (simp only: dy_def if_True)
  also have "\<dots> = of_int (k * 2 ^ nat e)" by (simp only: Fract_of_int_eq)
  also have "\<dots> = of_int k * 2 ^ nat e" by simp
  also have "(2::rat) ^ nat e = 2 powi e" using True by (simp add: power_int_def)
  finally show ?thesis .
next
  case False
  have "dy k e = Fract k (2 ^ nat (- e))" using False by (simp only: dy_def if_False)
  also have "\<dots> = of_int k / of_int (2 ^ nat (- e))" by (simp only: Fract_of_int_quotient)
  also have "\<dots> = of_int k * inverse (2 ^ nat (- e))" by (simp add: divide_inverse)
  also have "inverse ((2::rat) ^ nat (- e)) = 2 powi e"
    using False by (simp add: power_int_def power_one_over [symmetric] inverse_eq_divide)
  finally show ?thesis .
qed

lemma pow2_eq: "pow2 e = 2 powi e"
  by (simp add: pow2_def dy_eq)

lemma pow2_pos [simp]: "0 < pow2 e"
  by (simp add: pow2_eq)

lemma pow2_nonneg [simp]: "0 \<le> pow2 e"
  by (simp add: pow2_eq)

lemma pow2_neq0 [simp]: "pow2 e \<noteq> 0"
  by (simp add: pow2_eq)

lemma pow2_add: "pow2 (a + b) = pow2 a * pow2 b"
  by (simp add: pow2_eq power_int_add)

lemma pow2_diff: "pow2 (a - b) = pow2 a / pow2 b"
  by (simp add: pow2_eq power_int_diff)

lemma pow2_mono: "a \<le> b \<Longrightarrow> pow2 a \<le> pow2 b"
  by (simp add: pow2_eq power_int_increasing)

lemma pow2_strict_mono: "a < b \<Longrightarrow> pow2 a < pow2 b"
  by (simp add: pow2_eq power_int_strict_increasing)

lemma pow2_le_iff: "pow2 a \<le> pow2 b \<longleftrightarrow> a \<le> b"
  using pow2_mono pow2_strict_mono by (metis linorder_not_less)

lemma pow2_less_iff: "pow2 a < pow2 b \<longleftrightarrow> a < b"
  using pow2_mono pow2_strict_mono by (metis linorder_not_less)

lemma pow2_nat: "pow2 (int n) = 2 ^ n"
  by (simp add: pow2_eq)

lemma pow2_0 [simp]: "pow2 0 = 1"
  by (simp add: pow2_eq)

lemma bitlen_pow2_bounds:
  assumes "0 < (x::int)"
  shows "pow2 (bitlen x - 1) \<le> of_int x" "(of_int x :: rat) < pow2 (bitlen x)"
proof -
  from bitlen_bounds [OF assms] have a: "2 ^ nat (bitlen x - 1) \<le> x" and b: "x < 2 ^ nat (bitlen x)"
    by auto
  have p: "1 \<le> bitlen x" using assms by (auto simp: bitlen_alt_def)
  have "pow2 (bitlen x - 1) = 2 ^ nat (bitlen x - 1)"
    using p pow2_nat [of "nat (bitlen x - 1)"] by simp
  also have "\<dots> = of_int (2 ^ nat (bitlen x - 1))" by simp
  also have "\<dots> \<le> of_int x" using a of_int_le_iff by blast
  finally show "pow2 (bitlen x - 1) \<le> of_int x" .
  have "(of_int x :: rat) < of_int (2 ^ nat (bitlen x))" using b of_int_less_iff by blast
  also have "\<dots> = pow2 (bitlen x)"
    using p pow2_nat [of "nat (bitlen x)"] by simp
  finally show "(of_int x :: rat) < pow2 (bitlen x)" .
qed

lemma bexp_bounds:
  assumes "0 < m"
  shows "pow2 (bexp m) \<le> m \<and> m < pow2 (bexp m + 1)"
proof -
  obtain p q where pq: "quotient_of m = (p, q)" by (cases "quotient_of m")
  then have q: "0 < q" using quotient_of_denom_pos by blast
  have m: "m = of_int p / of_int q" using pq quotient_of_div by blast
  have p: "0 < p" using assms q m by (simp add: zero_less_divide_iff)
  define k where "k = bitlen p - bitlen q"
  have lo: "pow2 (k - 1) < m"
  proof -
    have "pow2 (k - 1) * of_int q < pow2 (k - 1) * pow2 (bitlen q)"
      using bitlen_pow2_bounds(2) [OF q] by simp
    also have "\<dots> = pow2 (bitlen p - 1)" by (simp add: k_def pow2_add [symmetric])
    also have "\<dots> \<le> of_int p" using bitlen_pow2_bounds(1) [OF p] .
    finally show ?thesis using q by (simp add: m pos_less_divide_eq)
  qed
  have hi: "m < pow2 (k + 1)"
  proof -
    have "of_int p < pow2 (bitlen p)" using bitlen_pow2_bounds(2) [OF p] .
    also have "\<dots> = pow2 (k + 1) * pow2 (bitlen q - 1)" by (simp add: k_def pow2_add [symmetric])
    also have "\<dots> \<le> pow2 (k + 1) * of_int q"
      using bitlen_pow2_bounds(1) [OF q] by simp
    finally show ?thesis using q by (simp add: m pos_divide_less_eq)
  qed
  show ?thesis
  proof (cases "pow2 k \<le> m")
    case True
    then have "bexp m = k" by (simp add: bexp_def pq k_def)
    then show ?thesis using True hi by simp
  next
    case False
    then have "bexp m = k - 1" by (simp add: bexp_def pq k_def)
    then show ?thesis using False lo by simp
  qed
qed

lemma bexp_unique:
  assumes "pow2 k \<le> m" "m < pow2 (k + 1)"
  shows "bexp m = k"
proof -
  have m: "0 < m" using assms(1) pow2_pos [of k] by linarith
  from bexp_bounds [OF m] have a: "pow2 (bexp m) \<le> m" and b: "m < pow2 (bexp m + 1)" by auto
  have "pow2 k < pow2 (bexp m + 1)" using assms(1) b by linarith
  then have "k < bexp m + 1" by (simp add: pow2_less_iff)
  moreover have "pow2 (bexp m) < pow2 (k + 1)" using assms(2) a by linarith
  then have "bexp m < k + 1" by (simp add: pow2_less_iff)
  ultimately show ?thesis by simp
qed

lemma bexp_mono:
  assumes "0 < a" "a \<le> b"
  shows "bexp a \<le> bexp b"
proof -
  have b: "0 < b" using assms by linarith
  have "pow2 (bexp a) \<le> a" using bexp_bounds [OF assms(1)] by simp
  also have "\<dots> \<le> b" by fact
  also have "\<dots> < pow2 (bexp b + 1)" using bexp_bounds [OF b] by simp
  finally show ?thesis by (simp add: pow2_less_iff)
qed

subsection \<open>Rounding to the nearest integer\<close>

lemma rhe_floor: "\<lfloor>x\<rfloor> \<le> rhe x \<and> rhe x \<le> \<lfloor>x\<rfloor> + 1"
  by (simp add: rhe_def Let_def)

lemma rhe_of_int [simp]: "rhe (of_int k) = k"
  by (simp add: rhe_def)

lemma rhe_mono:
  assumes "x \<le> y"
  shows "rhe x \<le> rhe y"
proof (cases "\<lfloor>x\<rfloor> = \<lfloor>y\<rfloor>")
  case True
  then have "x - of_int \<lfloor>x\<rfloor> \<le> y - of_int \<lfloor>y\<rfloor>" using assms by simp
  then show ?thesis using True by (auto simp: rhe_def Let_def)
next
  case False
  then have "\<lfloor>x\<rfloor> < \<lfloor>y\<rfloor>" using floor_mono [OF assms] by linarith
  then show ?thesis using rhe_floor [of x] rhe_floor [of y] by linarith
qed

lemma rhe_err: "\<bar>of_int (rhe x) - x\<bar> \<le> 1 / 2"
proof -
  have "of_int \<lfloor>x\<rfloor> \<le> x" "x < of_int \<lfloor>x\<rfloor> + 1" by linarith+
  then show ?thesis by (auto simp: rhe_def Let_def abs_le_iff)
qed

lemma rhe_0 [simp]: "rhe 0 = 0"
  by (simp add: rhe_def)

lemma rhe_nonneg: "0 \<le> x \<Longrightarrow> 0 \<le> rhe x"
  using rhe_mono [of 0 x] rhe_of_int [of 0] by simp

subsection \<open>Rounding to a format\<close>

lemma reprI: "0 \<le> k \<Longrightarrow> k < 2 ^ prec f \<Longrightarrow> emin f - int (prec f) + 1 \<le> e \<Longrightarrow> repr f (dy k e)"
  unfolding repr_def by blast

lemma repr_nonneg: "repr f m \<Longrightarrow> 0 \<le> m"
  by (auto simp: repr_def dy_eq)

lemma dy_0 [simp]: "dy 0 e = 0"
  by (simp add: dy_eq)

lemma repr_0 [simp]: "repr f 0"
  using reprI [of 0 f "emin f - int (prec f) + 1"] by simp

lemma rnd_0 [simp]: "rnd f 0 = 0"
  by (simp add: rnd_def)

lemma dy_pow2: "dy k e = of_int k * pow2 e"
  by (simp add: dy_eq pow2_eq)

lemma pow2_int: "0 \<le> e \<Longrightarrow> pow2 e = of_int (2 ^ nat e)"
  using pow2_nat [of "nat e"] by simp

lemma rnd_exact:
  assumes "repr f m"
  shows "rnd f m = m"
proof (cases "m = 0")
  case True
  then show ?thesis by simp
next
  case False
  from assms obtain k e where m: "m = dy k e" and k: "0 \<le> k" "k < 2 ^ prec f"
    and e: "emin f - int (prec f) + 1 \<le> e" unfolding repr_def by blast
  have mpos: "0 < m" using False repr_nonneg [OF assms] by simp
  define Q where "Q = qexp f m"
  have "m < pow2 (int (prec f)) * pow2 e"
  proof -
    have "(of_int k :: rat) < of_int (2 ^ prec f)" using k(2) of_int_less_iff by blast
    then have "(of_int k :: rat) < pow2 (int (prec f))" by (simp add: pow2_nat)
    then show ?thesis by (simp add: m dy_pow2)
  qed
  then have "pow2 (bexp m) < pow2 (int (prec f) + e)"
    using bexp_bounds [OF mpos] by (simp add: pow2_add)
  then have "bexp m < int (prec f) + e" by (simp add: pow2_less_iff)
  then have Qe: "Q \<le> e" using e by (simp add: Q_def qexp_def)
  have "m / pow2 Q = of_int k * pow2 (e - Q)" by (simp add: m dy_pow2 pow2_diff)
  also have "\<dots> = of_int (k * 2 ^ nat (e - Q))" using Qe by (simp add: pow2_int)
  finally have "rhe (m / pow2 Q) = k * 2 ^ nat (e - Q)" by (simp only: rhe_of_int)
  then have "rnd f m = of_int (k * 2 ^ nat (e - Q)) * pow2 Q"
    by (simp add: rnd_def Q_def [symmetric] dy_pow2)
  also have "\<dots> = of_int k * (pow2 (e - Q) * pow2 Q)" using Qe by (simp add: pow2_int)
  also have "\<dots> = m" by (simp add: m dy_pow2 pow2_add [symmetric])
  finally show ?thesis .
qed

lemma rnd_nonneg:
  assumes "0 \<le> m"
  shows "0 \<le> rnd f m"
proof -
  have "0 \<le> m / pow2 (qexp f m)" using assms pow2_pos by (intro divide_nonneg_pos)
  from rhe_nonneg [OF this] have "(0::rat) \<le> of_int (rhe (m / pow2 (qexp f m)))" by simp
  then show ?thesis using pow2_pos [of "qexp f m"] by (simp add: rnd_def dy_pow2 less_imp_le)
qed

lemma pow2_pred_nat: "0 < n \<Longrightarrow> pow2 (int n - 1) = 2 ^ (n - 1)"
  using pow2_nat [of "n - 1"] by (simp add: int_ops)

text \<open>The scaled magnitude lies between \<open>2^(prec-1)\<close> (for a normal number) and \<open>2^prec\<close>.\<close>

lemma scaled_upper:
  assumes "0 < m" "0 < prec f"
  shows "m / pow2 (qexp f m) < pow2 (int (prec f))"
proof -
  have "m < pow2 (bexp m + 1)" using bexp_bounds [OF assms(1)] by simp
  also have "\<dots> \<le> pow2 (qexp f m + int (prec f))"
    by (rule pow2_mono) (simp add: qexp_def)
  finally show ?thesis by (simp add: pow2_add pos_divide_less_eq mult.commute)
qed

lemma scaled_lower:
  assumes "0 < m" "emin f \<le> bexp m"
  shows "pow2 (int (prec f) - 1) \<le> m / pow2 (qexp f m)"
proof -
  have q: "qexp f m = bexp m - (int (prec f) - 1)" using assms(2) by (simp add: qexp_def)
  have "pow2 (int (prec f) - 1) * pow2 (qexp f m) = pow2 (bexp m)"
    by (simp add: q pow2_add [symmetric])
  also have "\<dots> \<le> m" using bexp_bounds [OF assms(1)] by simp
  finally show ?thesis by (simp add: pos_le_divide_eq)
qed

lemma rnd_upper:
  assumes "0 < m" "0 < prec f"
  shows "rnd f m \<le> pow2 (qexp f m + int (prec f))"
proof -
  have "m / pow2 (qexp f m) \<le> of_int (2 ^ prec f)"
    using scaled_upper [OF assms] by (simp add: pow2_nat)
  from rhe_mono [OF this] have "rhe (m / pow2 (qexp f m)) \<le> 2 ^ prec f" by (simp only: rhe_of_int)
  then have "(of_int (rhe (m / pow2 (qexp f m))) :: rat) \<le> of_int (2 ^ prec f)"
    using of_int_le_iff by blast
  then have "(of_int (rhe (m / pow2 (qexp f m))) :: rat) \<le> pow2 (int (prec f))"
    by (simp add: pow2_nat)
  then show ?thesis by (simp add: rnd_def dy_pow2 pow2_add mult.commute mult_left_mono)
qed

lemma rnd_lower:
  assumes "0 < m" "emin f \<le> bexp m" "0 < prec f"
  shows "pow2 (bexp m) \<le> rnd f m"
proof -
  define K where "K = rhe (m / pow2 (qexp f m))"
  have q: "qexp f m = bexp m - (int (prec f) - 1)" using assms(2) by (simp add: qexp_def)
  have "of_int (2 ^ (prec f - 1)) \<le> m / pow2 (qexp f m)"
    using scaled_lower [OF assms(1,2)] pow2_pred_nat [OF assms(3)] by simp
  from rhe_mono [OF this] have "2 ^ (prec f - 1) \<le> K"
    unfolding K_def by (simp only: rhe_of_int)
  then have "(of_int (2 ^ (prec f - 1)) :: rat) \<le> of_int K"
    by (simp only: of_int_le_iff)
  then have "pow2 (int (prec f) - 1) \<le> of_int K"
    using pow2_pred_nat [OF assms(3)] by simp
  then have "pow2 (int (prec f) - 1) * pow2 (qexp f m) \<le> of_int K * pow2 (qexp f m)"
    by (simp add: mult_right_mono)
  then show ?thesis by (simp add: q pow2_add [symmetric] rnd_def dy_pow2 K_def)
qed

lemma rnd_mono:
  assumes "0 \<le> a" "a \<le> b" "0 < prec f"
  shows "rnd f a \<le> rnd f b"
proof (cases "a = 0")
  case True
  then show ?thesis using rnd_nonneg [of b f] assms by simp
next
  case False
  then have a: "0 < a" and b: "0 < b" using assms by auto
  have be: "bexp a \<le> bexp b" using bexp_mono [OF a assms(2)] .
  show ?thesis
  proof (cases "qexp f a = qexp f b")
    case True
    have "a / pow2 (qexp f b) \<le> b / pow2 (qexp f b)"
      using assms(2) pow2_pos [of "qexp f b"] by (simp add: divide_right_mono less_imp_le)
    from rhe_mono [OF this] show ?thesis
      by (simp add: rnd_def True dy_pow2 mult_right_mono)
  next
    case False
    then have lt: "qexp f a < qexp f b" using be by (auto simp: qexp_def)
    then have eb: "emin f \<le> bexp b" and qb: "qexp f b = bexp b - (int (prec f) - 1)"
      using be by (auto simp: qexp_def)
    have "rnd f a \<le> pow2 (qexp f a + int (prec f))" using rnd_upper [OF a assms(3)] .
    also have "\<dots> \<le> pow2 (bexp b)" by (rule pow2_mono) (use lt qb in simp)
    also have "\<dots> \<le> rnd f b" using rnd_lower [OF b eb assms(3)] .
    finally show ?thesis .
  qed
qed

lemma rnd_le: "0 \<le> m \<Longrightarrow> m \<le> B \<Longrightarrow> repr f B \<Longrightarrow> 0 < prec f \<Longrightarrow> rnd f m \<le> B"
  using rnd_mono [of m B f] rnd_exact [of f B] by simp

lemma rnd_ge: "A \<le> m \<Longrightarrow> repr f A \<Longrightarrow> 0 < prec f \<Longrightarrow> A \<le> rnd f m"
  using rnd_mono [of A m f] rnd_exact [of f A] repr_nonneg [of f A] by simp

subsection \<open>The results of the operations are data of the format\<close>

lemma pow2_1 [simp]: "pow2 1 = 2"
  by (simp add: pow2_eq)

lemma repr_rnd:
  assumes "0 \<le> m" "0 < prec f"
  shows "repr f (rnd f m)"
proof (cases "m = 0")
  case True
  then show ?thesis by simp
next
  case False
  then have m: "0 < m" using assms by simp
  define Q where "Q = qexp f m"
  define K where "K = rhe (m / pow2 Q)"
  have Q: "emin f - int (prec f) + 1 \<le> Q" by (simp add: Q_def qexp_def)
  have K0: "0 \<le> K" unfolding K_def using m pow2_pos [of Q]
    by (intro rhe_nonneg divide_nonneg_pos) simp_all
  have "m / pow2 Q \<le> of_int (2 ^ prec f)"
    using scaled_upper [OF m assms(2)] by (simp add: Q_def pow2_nat)
  from rhe_mono [OF this] have K1: "K \<le> 2 ^ prec f" unfolding K_def by (simp only: rhe_of_int)
  have r: "rnd f m = dy K Q" by (simp add: rnd_def Q_def K_def)
  show ?thesis
  proof (cases "K = 2 ^ prec f")
    case True
    have "dy K Q = dy (2 ^ (prec f - 1)) (Q + 1)"
    proof -
      have "(2::rat) ^ prec f = 2 ^ (prec f - 1) * 2" using assms(2) by (cases "prec f") simp_all
      then show ?thesis by (simp add: dy_pow2 True pow2_add)
    qed
    moreover have "repr f (dy (2 ^ (prec f - 1)) (Q + 1))"
      using Q assms(2) by (intro reprI) simp_all
    ultimately show ?thesis using r by simp
  next
    case False
    then have "K < 2 ^ prec f" using K1 by simp
    then show ?thesis using r K0 Q reprI by simp
  qed
qed

lemma valid_fv_round: "0 \<le> m \<Longrightarrow> 0 < prec f \<Longrightarrow> valid f (fv_round f s m)"
  by (simp add: fv_round_def Let_def repr_rnd not_le)

lemma valid_fv_of_rat: "0 < prec f \<Longrightarrow> valid f (fv_of_rat f z v)"
  by (simp add: fv_of_rat_def valid_fv_round)

lemma valid_nonneg: "valid f (Fin s m) \<Longrightarrow> 0 \<le> m"
  using repr_nonneg by auto

lemma valid_fv_neg: "valid f x \<Longrightarrow> valid f (fv_neg x)"
  by (cases x) simp_all

lemma valid_fv_add: "valid f x \<Longrightarrow> valid f y \<Longrightarrow> 0 < prec f \<Longrightarrow> valid f (fv_add f x y)"
  by (cases x; cases y) (simp_all add: valid_fv_of_rat del: valid.simps(3))

lemma valid_fv_sub: "valid f x \<Longrightarrow> valid f y \<Longrightarrow> 0 < prec f \<Longrightarrow> valid f (fv_sub f x y)"
  by (simp add: fv_sub_def valid_fv_add valid_fv_neg)

lemma valid_fv_mul: "valid f x \<Longrightarrow> valid f y \<Longrightarrow> 0 < prec f \<Longrightarrow> valid f (fv_mul f x y)"
proof (cases x; cases y)
  fix s a t b
  assume "valid f x" "valid f y" "0 < prec f" and x: "x = Fin s a" and y: "y = Fin t b"
  then have "0 \<le> a * b" using valid_nonneg by (metis mult_nonneg_nonneg)
  then show ?thesis using \<open>0 < prec f\<close> by (simp add: x y valid_fv_round del: valid.simps(3))
qed simp_all

lemma valid_fv_div: "valid f x \<Longrightarrow> valid f y \<Longrightarrow> 0 < prec f \<Longrightarrow> valid f (fv_div f x y)"
proof (cases x; cases y)
  fix s a t b
  assume "valid f x" "valid f y" "0 < prec f" and x: "x = Fin s a" and y: "y = Fin t b"
  then have "0 \<le> a / b" using valid_nonneg by (metis divide_nonneg_nonneg)
  then show ?thesis using \<open>0 < prec f\<close> by (simp add: x y valid_fv_round del: valid.simps(3))
qed simp_all

lemma valid_fv_cast: "valid g x \<Longrightarrow> 0 < prec f \<Longrightarrow> valid f (fv_cast f x)"
  using valid_nonneg [of g] by (cases x) (simp_all add: valid_fv_round del: valid.simps(3))

lemma prec32 [simp]: "prec binary32 = 24" and emax32 [simp]: "emax binary32 = 127"
  and emin32 [simp]: "emin binary32 = - 126"
  by (simp_all add: binary32_def emin_def)

lemma prec64 [simp]: "prec binary64 = 53" and emax64 [simp]: "emax binary64 = 1023"
  and emin64 [simp]: "emin binary64 = - 1022"
  by (simp_all add: binary64_def emin_def)

subsection \<open>The encoding\<close>

lemma mask23: "(0x7FFFFF :: 32 word) = mask 23" and mask8: "(0xFF :: 32 word) = mask 8"
  by (simp_all add: mask_eq_exp_minus_1)

lemma uint_frac: "uint (w AND 0x7FFFFF) = uint w mod 2 ^ 23" for w :: "32 word"
  unfolding mask23 by (simp add: and_mask_mod_2p uint_word_of_int)

lemma uint_expo: "uint (drop_bit 23 w AND 0xFF) = uint w div 2 ^ 23 mod 2 ^ 8" for w :: "32 word"
proof -
  have "uint (drop_bit 23 w) = uint w div 2 ^ 23"
    by (simp add: drop_bit_eq_div uint_div)
  then show ?thesis unfolding mask8 by (simp add: and_mask_mod_2p uint_word_of_int)
qed

lemma bit31: "bit w 31 \<longleftrightarrow> 2 ^ 31 \<le> uint w" for w :: "32 word"
proof -
  have "bit w 31 \<longleftrightarrow> bit (uint w) 31" by (simp add: bit_uint_iff)
  also have "\<dots> \<longleftrightarrow> odd (uint w div 2 ^ 31)" by (simp add: bit_iff_odd_drop_bit drop_bit_eq_div)
  also have "\<dots> \<longleftrightarrow> 2 ^ 31 \<le> uint w"
  proof -
    have u: "0 \<le> uint w" "uint w \<le> 2 ^ 32 - 1" using uint_bounded [of w] by simp_all
    have "uint w div 2 ^ 31 \<le> (2 ^ 32 - 1) div 2 ^ 31" using u(2) by (intro zdiv_mono1) simp_all
    then have q1: "uint w div 2 ^ 31 \<le> 1" by simp
    have q0: "0 \<le> uint w div 2 ^ 31" using u(1) by (simp add: pos_imp_zdiv_nonneg_iff)
    have "0 < uint w div 2 ^ 31 \<longleftrightarrow> 2 ^ 31 \<le> uint w" by (simp add: pos_imp_zdiv_pos_iff)
    moreover have "odd (uint w div 2 ^ 31) \<longleftrightarrow> 0 < uint w div 2 ^ 31"
    proof -
      from q0 q1 have "uint w div 2 ^ 31 = 0 \<or> uint w div 2 ^ 31 = 1" by linarith
      then show ?thesis by auto
    qed
    ultimately show ?thesis by simp
  qed
  finally show ?thesis .
qed

text \<open>The decoding, on the unsigned value of the word.\<close>

lemma dec32_uint:
  "dec32 w = (let u = uint w; s = (2 ^ 31 \<le> u); e = u div 2 ^ 23 mod 2 ^ 8; m = u mod 2 ^ 23
              in if e = 255 then (if m = 0 then Inf s else NaN)
                 else if e = 0 then Fin s (dy m (- 149))
                 else Fin s (dy (2 ^ 23 + m) (e - 150)))"
  by (simp add: dec32_def Let_def uint_frac uint_expo bit31)

lemma uint_sign_plus:
  assumes "0 \<le> N" "N < 2 ^ 31"
  shows "uint (sign_bit s + word_of_int N :: 32 word) = (if s then 2 ^ 31 else 0) + N"
proof -
  have "uint (word_of_int N :: 32 word) = N" using assms by (simp add: uint_word_of_int)
  moreover have "uint (sign_bit s) = (if s then 2 ^ 31 else 0)" by (simp add: sign_bit_def)
  ultimately show ?thesis using assms by (simp add: uint_word_ariths)
qed

lemma dec32_sign_plus:
  assumes "0 \<le> N" "N < 255 * 2 ^ 23"
  shows "dec32 (sign_bit s + word_of_int N) =
    (if N div 2 ^ 23 = 0 then Fin s (dy (N mod 2 ^ 23) (- 149))
     else Fin s (dy (2 ^ 23 + N mod 2 ^ 23) (N div 2 ^ 23 - 150)))"
proof -
  have N31: "N < 2 ^ 31" using assms(2) by simp
  define u where "u = uint (sign_bit s + word_of_int N :: 32 word)"
  have u: "u = (if s then 2 ^ 31 else 0) + N" unfolding u_def using uint_sign_plus [OF assms(1) N31] .
  have s: "(2 ^ 31 \<le> u) = s" using u assms(1) N31 by auto
  have d0: "0 \<le> N div 2 ^ 23" using assms(1) by (simp add: pos_imp_zdiv_nonneg_iff)
  have "N div 2 ^ 23 \<le> (255 * 2 ^ 23 - 1) div 2 ^ 23" using assms(2) by (intro zdiv_mono1) simp_all
  then have d1: "N div 2 ^ 23 < 255" by simp
  have "(2 ^ 31 + N) div 2 ^ 23 = 256 + N div 2 ^ 23"
  proof -
    have "(2 ^ 31 + N) = N + 256 * 2 ^ 23" by simp
    then have "(2 ^ 31 + N) div 2 ^ 23 = (N + 256 * 2 ^ 23) div 2 ^ 23" by simp
    also have "\<dots> = 256 + N div 2 ^ 23" by (rule div_mult_self1) simp
    finally show ?thesis .
  qed
  then have e: "u div 2 ^ 23 mod 2 ^ 8 = N div 2 ^ 23" using u d0 d1 by auto
  have "(2 ^ 31 + N) mod 2 ^ 23 = N mod 2 ^ 23"
  proof -
    have "(2 ^ 31 + N) = N + 256 * 2 ^ 23" by simp
    then have "(2 ^ 31 + N) mod 2 ^ 23 = (N + 256 * 2 ^ 23) mod 2 ^ 23" by (simp add: add.commute)
    also have "\<dots> = N mod 2 ^ 23" by (rule mod_mult_self1)
    finally show ?thesis .
  qed
  then have m: "u mod 2 ^ 23 = N mod 2 ^ 23" using u by auto
  have "dec32 (sign_bit s + word_of_int N) =
      (if N div 2 ^ 23 = 255 then (if N mod 2 ^ 23 = 0 then Inf s else NaN)
       else if N div 2 ^ 23 = 0 then Fin s (dy (N mod 2 ^ 23) (- 149))
       else Fin s (dy (2 ^ 23 + N mod 2 ^ 23) (N div 2 ^ 23 - 150)))"
    unfolding dec32_uint u_def [symmetric] Let_def s e m by simp
  then show ?thesis using d1 by simp
qed

lemma dec32_enc32_Fin:
  assumes "repr binary32 m" "m < pow2 128"
  shows "dec32 (enc32 (Fin s m)) = Fin s m"
proof -
  from assms(1) obtain k e where m: "m = dy k e" and k: "0 \<le> k" "k < 2 ^ 24" and e: "- 149 \<le> e"
    unfolding repr_def by auto
  have k24: "(of_int k :: rat) < pow2 24"
  proof -
    have "(of_int k :: rat) < of_int (2 ^ 24)" using k(2) by (simp only: of_int_less_iff)
    then show ?thesis using pow2_nat [of 24] by simp
  qed
  show ?thesis
  proof (cases "m < pow2 (- 126)")
    case True
    define N where "N = k * 2 ^ nat (e + 149)"
    have mN: "m * pow2 149 = of_int N"
    proof -
      have "m * pow2 149 = of_int k * pow2 (e + 149)" by (simp add: m dy_pow2 pow2_add)
      then show ?thesis using e by (simp add: N_def pow2_int)
    qed
    have N0: "0 \<le> N" using k(1) by (simp add: N_def)
    have "of_int N < pow2 (- 126) * pow2 149" using True mN [symmetric] by simp
    also have "\<dots> = of_int (2 ^ 23)" using pow2_nat [of 23] by (simp add: pow2_add [symmetric])
    finally have N1: "N < 2 ^ 23" by (simp only: of_int_less_iff)
    have enc: "enc32 (Fin s m) = sign_bit s + word_of_int N" using True mN by simp
    have "dy N (- 149) = m"
    proof -
      have "dy N (- 149) = m * (pow2 149 * pow2 (- 149))" by (simp add: dy_pow2 mN [symmetric])
      then show ?thesis by (simp add: pow2_add [symmetric])
    qed
    then have "dec32 (sign_bit s + word_of_int N) = Fin s m"
      using dec32_sign_plus [of N s] N0 N1 by simp
    then show ?thesis by (simp only: enc)
  next
    case False
    then have lo: "pow2 (- 126) \<le> m" by simp
    then have mpos: "0 < m" using pow2_pos [of "- 126"] by linarith
    define E where "E = bexp m"
    have Eb: "pow2 E \<le> m" "m < pow2 (E + 1)" using bexp_bounds [OF mpos] by (simp_all add: E_def)
    have E0: "- 126 \<le> E"
    proof -
      have "pow2 (- 126) < pow2 (E + 1)" using lo Eb(2) by linarith
      then show ?thesis by (simp add: pow2_less_iff)
    qed
    have E1: "E \<le> 127"
    proof -
      have "pow2 E < pow2 128" using assms(2) Eb(1) by linarith
      then show ?thesis by (simp add: pow2_less_iff)
    qed
    have Ee: "E \<le> 23 + e"
    proof -
      have "m < pow2 24 * pow2 e" using k24 by (simp add: m dy_pow2)
      then have "pow2 E < pow2 (24 + e)" using Eb(1) by (simp add: pow2_add)
      then show ?thesis by (simp add: pow2_less_iff)
    qed
    define M where "M = k * 2 ^ nat (e + 23 - E)"
    have mM: "m * pow2 (23 - E) = of_int M"
    proof -
      have "m * pow2 (23 - E) = of_int k * pow2 (e + 23 - E)"
        by (simp add: m dy_pow2 pow2_add [symmetric] algebra_simps)
      then show ?thesis using Ee by (simp add: M_def pow2_int)
    qed
    have "of_int (2 ^ 23) = pow2 E * pow2 (23 - E)"
      using pow2_nat [of 23] by (simp add: pow2_add [symmetric])
    also have "\<dots> \<le> of_int M" using Eb(1) by (simp add: mM [symmetric])
    finally have M0: "2 ^ 23 \<le> M" by (simp only: of_int_le_iff)
    have "of_int M < pow2 (E + 1) * pow2 (23 - E)" using Eb(2) by (simp add: mM [symmetric])
    also have "\<dots> = of_int (2 ^ 24)" using pow2_nat [of 24] by (simp add: pow2_add [symmetric])
    finally have M1: "M < 2 ^ 24" by (simp only: of_int_less_iff)
    define N where "N = (E + 126) * 2 ^ 23 + M"
    have enc: "enc32 (Fin s m) = sign_bit s + word_of_int N"
      using False mM by (simp add: N_def E_def)
    have N0: "0 \<le> N" using E0 M0 by (simp add: N_def)
    have Ndiv: "N div 2 ^ 23 = E + 127"
    proof -
      have "N = (M - 2 ^ 23) + (E + 127) * 2 ^ 23" by (simp add: N_def algebra_simps)
      then have "N div 2 ^ 23 = (E + 127) + (M - 2 ^ 23) div 2 ^ 23" by (simp only: div_mult_self1) simp
      moreover have "(M - 2 ^ 23) div 2 ^ 23 = 0" using M0 M1 by simp
      ultimately show ?thesis by simp
    qed
    have Nmod: "N mod 2 ^ 23 = M - 2 ^ 23"
    proof -
      have "N = (M - 2 ^ 23) + (E + 127) * 2 ^ 23" by (simp add: N_def algebra_simps)
      then have "N mod 2 ^ 23 = (M - 2 ^ 23) mod 2 ^ 23" by (simp only: mod_mult_self1)
      moreover have "(M - 2 ^ 23) mod 2 ^ 23 = M - 2 ^ 23"
        using M0 M1 by (intro mod_pos_pos_trivial) simp_all
      ultimately show ?thesis by (simp only:)
    qed
    have N1: "N < 255 * 2 ^ 23" using E1 M1 by (simp add: N_def)
    have "dy M (E - 23) = m"
    proof -
      have "dy M (E - 23) = m * (pow2 (23 - E) * pow2 (E - 23))" by (simp add: dy_pow2 mM [symmetric])
      then show ?thesis by (simp add: pow2_add [symmetric])
    qed
    then have "dec32 (sign_bit s + word_of_int N) = Fin s m"
      using dec32_sign_plus [OF N0 N1, of s, unfolded Ndiv Nmod] E0 by simp
    then show ?thesis by (simp only: enc)
  qed
qed

lemma dec32_enc32:
  assumes "valid binary32 v"
  shows "dec32 (enc32 v) = v"
proof (cases v)
  case NaN
  then show ?thesis by (simp add: dec32_uint)
next
  case (Inf s)
  have "enc32 (Inf s) = sign_bit s + word_of_int (255 * 2 ^ 23)" by simp
  then have "uint (enc32 (Inf s)) = (if s then 2 ^ 31 else 0) + 255 * 2 ^ 23"
    using uint_sign_plus [of "255 * 2 ^ 23" s] by simp
  then show ?thesis using Inf by (simp add: dec32_uint)
next
  case (Fin s m)
  then show ?thesis using assms dec32_enc32_Fin by simp
qed

lemma valid_dec32: "valid binary32 (dec32 w)"
proof -
  define u where "u = uint w"
  define e where "e = u div 2 ^ 23 mod 2 ^ 8"
  define m where "m = u mod 2 ^ 23"
  have m: "0 \<le> m" "m < 2 ^ 23" by (simp_all add: m_def)
  have e: "0 \<le> e" "e < 256" by (simp_all add: e_def)
  have sub: "repr binary32 (dy m (- 149)) \<and> dy m (- 149) < pow2 128"
  proof
    show "repr binary32 (dy m (- 149))" using m by (intro reprI) simp_all
    have "(of_int m :: rat) < of_int (2 ^ 23)" using m(2) by (simp only: of_int_less_iff)
    then have "(of_int m :: rat) < pow2 23" using pow2_nat [of 23] by simp
    then have "dy m (- 149) < pow2 23 * pow2 (- 149)" by (simp add: dy_pow2)
    also have "\<dots> \<le> pow2 128" unfolding pow2_add [symmetric] by (rule pow2_mono) simp
    finally show "dy m (- 149) < pow2 128" .
  qed
  have nor: "repr binary32 (dy (2 ^ 23 + m) (e - 150)) \<and> dy (2 ^ 23 + m) (e - 150) < pow2 128"
    if "e \<noteq> 0" "e \<noteq> 255"
  proof
    show "repr binary32 (dy (2 ^ 23 + m) (e - 150))" using m e that by (intro reprI) simp_all
    have "(of_int (2 ^ 23 + m) :: rat) < of_int (2 ^ 24)" using m(2) by (simp only: of_int_less_iff) simp
    then have "(of_int (2 ^ 23 + m) :: rat) < pow2 24" using pow2_nat [of 24] by simp
    then have "dy (2 ^ 23 + m) (e - 150) < pow2 24 * pow2 (e - 150)" by (simp add: dy_pow2)
    also have "\<dots> \<le> pow2 128" unfolding pow2_add [symmetric] by (rule pow2_mono) (use e that in simp)
    finally show "dy (2 ^ 23 + m) (e - 150) < pow2 128" .
  qed
  show ?thesis
    unfolding dec32_uint Let_def u_def [symmetric] e_def [symmetric] m_def [symmetric]
    using sub nor by simp
qed

subsection \<open>Decoding the result of an operation\<close>

lemma valid32 [simp]: "valid binary32 (dec32 w)"
  by (rule valid_dec32)

lemma dec32_fadd: "dec32 (fadd a b) = fv_add binary32 (dec32 a) (dec32 b)"
  unfolding fadd_def by (rule dec32_enc32) (simp add: valid_fv_add)

lemma dec32_fsub: "dec32 (fsub a b) = fv_sub binary32 (dec32 a) (dec32 b)"
  unfolding fsub_def by (rule dec32_enc32) (simp add: valid_fv_sub)

lemma dec32_fmul: "dec32 (fmul a b) = fv_mul binary32 (dec32 a) (dec32 b)"
  unfolding fmul_def by (rule dec32_enc32) (simp add: valid_fv_mul)

lemma dec32_fdiv: "dec32 (fdiv a b) = fv_div binary32 (dec32 a) (dec32 b)"
  unfolding fdiv_def by (rule dec32_enc32) (simp add: valid_fv_div)

lemma dec32_flit: "dec32 (flit r) = fv_of_rat binary32 False r"
  unfolding flit_def by (rule dec32_enc32) (simp add: valid_fv_of_rat)

lemma dec32_i2f: "dec32 (i2f i) = fv_of_rat binary32 False (of_int (sint i))"
  unfolding i2f_def by (rule dec32_enc32) (simp add: valid_fv_of_rat)

lemma dec32_d2f: "valid g d \<Longrightarrow> dec32 (d2f d) = fv_cast binary32 d"
  unfolding d2f_def by (rule dec32_enc32) (simp add: valid_fv_cast)

subsection \<open>Intervals\<close>

lemma sval_0 [simp]: "sval s 0 = 0"
  by (simp add: sval_def)

lemma exact_repr: "exact f r \<Longrightarrow> 0 < prec f \<Longrightarrow> repr f \<bar>r\<bar>"
  unfolding exact_def using repr_rnd [of "\<bar>r\<bar>" f] by simp

lemma in_range_weaken: "in_range a b x \<Longrightarrow> a' \<le> a \<Longrightarrow> b \<le> b' \<Longrightarrow> in_range a' b' x"
  by (cases x) auto

lemma in_range_fv_round:
  assumes "0 \<le> m" "L \<le> sval s m" "sval s m \<le> H" "exact f L" "exact f H" "0 < prec f"
  shows "in_range L H (fv_round f s m)"
proof -
  have rL: "repr f \<bar>L\<bar>" and rH: "repr f \<bar>H\<bar>" using assms exact_repr by blast+
  have bL: "\<bar>L\<bar> < pow2 (emax f + 1)" and bH: "\<bar>H\<bar> < pow2 (emax f + 1)"
    using assms by (simp_all add: exact_def)
  have r0: "0 \<le> rnd f m" using assms(1) by (rule rnd_nonneg)
  show ?thesis
  proof (cases s)
    case False
    then have mH: "m \<le> \<bar>H\<bar>" using assms by (simp add: sval_def)
    have up: "rnd f m \<le> \<bar>H\<bar>" using rnd_le [OF assms(1) mH rH assms(6)] .
    have H: "\<bar>H\<bar> = H" using mH assms(1) False assms(3) by (simp add: sval_def)
    have lo: "L \<le> rnd f m"
    proof (cases "L \<le> 0")
      case True
      then show ?thesis using r0 by linarith
    next
      case F: False
      then have "\<bar>L\<bar> \<le> m" using assms(2) False by (simp add: sval_def)
      from rnd_ge [OF this rL assms(6)] show ?thesis using F by simp
    qed
    show ?thesis using up bH lo r0 H False by (simp add: fv_round_def Let_def sval_def not_le)
  next
    case True
    then have mL: "m \<le> \<bar>L\<bar>" using assms by (simp add: sval_def)
    have up: "rnd f m \<le> \<bar>L\<bar>" using rnd_le [OF assms(1) mL rL assms(6)] .
    have L: "\<bar>L\<bar> = - L" using mL assms(1) True assms(2) by (simp add: sval_def)
    have hi: "- rnd f m \<le> H"
    proof (cases "0 \<le> H")
      case True
      then show ?thesis using r0 by linarith
    next
      case F: False
      then have "\<bar>H\<bar> \<le> m" using assms(3) True by (simp add: sval_def)
      from rnd_ge [OF this rH assms(6)] show ?thesis using F by simp
    qed
    show ?thesis using up bL hi r0 L True by (simp add: fv_round_def Let_def sval_def not_le)
  qed
qed

lemma in_range_fv_of_rat:
  assumes "L \<le> v" "v \<le> H" "exact f L" "exact f H" "0 < prec f"
  shows "in_range L H (fv_of_rat f z v)"
proof (cases "v = 0")
  case True
  then show ?thesis using assms by (simp add: fv_of_rat_def)
next
  case False
  have "sval (v < 0) \<bar>v\<bar> = v" by (simp add: sval_def)
  then show ?thesis
    using False assms in_range_fv_round [of "\<bar>v\<bar>" L "v < 0" H f] by (simp add: fv_of_rat_def)
qed

lemma in_range_fv_add:
  assumes "in_range a b x" "in_range c d y" "L \<le> a + c" "b + d \<le> H"
    "exact f L" "exact f H" "0 < prec f"
  shows "in_range L H (fv_add f x y)"
proof -
  from assms(1) obtain s m where x: "x = Fin s m" by (cases x) auto
  from assms(2) obtain t n where y: "y = Fin t n" by (cases y) auto
  have "L \<le> sval s m + sval t n" "sval s m + sval t n \<le> H"
    using assms(1-4) unfolding x y by auto
  then show ?thesis unfolding x y using assms(5-7) by (simp add: in_range_fv_of_rat)
qed

lemma in_range_fv_neg: "in_range a b x \<Longrightarrow> in_range (- b) (- a) (fv_neg x)"
  by (cases x) (auto simp: sval_def)

lemma in_range_fv_sub:
  assumes "in_range a b x" "in_range c d y" "L \<le> a - d" "b - c \<le> H"
    "exact f L" "exact f H" "0 < prec f"
  shows "in_range L H (fv_sub f x y)"
  unfolding fv_sub_def using in_range_fv_add [OF assms(1) in_range_fv_neg [OF assms(2)], of L H f] assms
  by simp

lemma mult_interval:
  fixes u v :: rat
  assumes "a \<le> u" "u \<le> b" "c \<le> v" "v \<le> d"
  shows "min (min (a * c) (a * d)) (min (b * c) (b * d)) \<le> u * v"
    and "u * v \<le> max (max (a * c) (a * d)) (max (b * c) (b * d))"
proof -
  have 1: "min (a * v) (b * v) \<le> u * v \<and> u * v \<le> max (a * v) (b * v)"
  proof (cases "0 \<le> v")
    case True
    then have "a * v \<le> u * v" "u * v \<le> b * v" using assms by (simp_all add: mult_right_mono)
    then show ?thesis by (simp add: min_le_iff_disj le_max_iff_disj)
  next
    case False
    then have "b * v \<le> u * v" "u * v \<le> a * v" using assms by (simp_all add: mult_right_mono_neg)
    then show ?thesis by (simp add: min_le_iff_disj le_max_iff_disj)
  qed
  have 2: "min (k * c) (k * d) \<le> k * v \<and> k * v \<le> max (k * c) (k * d)" for k
  proof (cases "0 \<le> k")
    case True
    then have "k * c \<le> k * v" "k * v \<le> k * d" using assms by (simp_all add: mult_left_mono)
    then show ?thesis by (simp add: min_le_iff_disj le_max_iff_disj)
  next
    case False
    then have "k * d \<le> k * v" "k * v \<le> k * c" using assms by (simp_all add: mult_left_mono_neg)
    then show ?thesis by (simp add: min_le_iff_disj le_max_iff_disj)
  qed
  from 1 2 [of a] 2 [of b]
  show "min (min (a * c) (a * d)) (min (b * c) (b * d)) \<le> u * v"
    by (simp add: min_le_iff_disj) linarith
  from 1 2 [of a] 2 [of b]
  show "u * v \<le> max (max (a * c) (a * d)) (max (b * c) (b * d))"
    by (simp add: le_max_iff_disj) linarith
qed

lemma sval_mult: "sval (s \<noteq> t) (a * b) = sval s a * sval t b"
  by (simp add: sval_def)

lemma in_range_fv_mul:
  assumes "in_range a b x" "in_range c d y"
    "L \<le> min (min (a * c) (a * d)) (min (b * c) (b * d))"
    "max (max (a * c) (a * d)) (max (b * c) (b * d)) \<le> H"
    "exact f L" "exact f H" "0 < prec f"
  shows "in_range L H (fv_mul f x y)"
proof -
  from assms(1) obtain s m where x: "x = Fin s m" by (cases x) auto
  from assms(2) obtain t n where y: "y = Fin t n" by (cases y) auto
  have m: "0 \<le> m" "a \<le> sval s m" "sval s m \<le> b" using assms(1) unfolding x by auto
  have n: "0 \<le> n" "c \<le> sval t n" "sval t n \<le> d" using assms(2) unfolding y by auto
  have "L \<le> sval (s \<noteq> t) (m * n)" "sval (s \<noteq> t) (m * n) \<le> H"
    unfolding sval_mult using mult_interval [OF m(2,3) n(2,3)] assms(3,4) by linarith+
  moreover have "0 \<le> m * n" using m(1) n(1) by simp
  ultimately show ?thesis unfolding x y using assms(5-7) by (simp add: in_range_fv_round)
qed

subsection \<open>Arithmetic of the type \<open>int\<close>\<close>

lemma stb31: "- (2 ^ 31) \<le> k \<Longrightarrow> k < 2 ^ 31 \<Longrightarrow> signed_take_bit 31 k = (k :: int)"
  using signed_take_bit_int_eq_self [of 31 k] by simp

lemma sint_eq_uint32: "uint w < 2 ^ 31 \<Longrightarrow> sint w = uint w" for w :: "32 word"
  using stb31 [of "uint w"] uint_nonnegative [of w] by (simp add: sint_uint)

lemma iadd_Some: "in_int (sint a + sint b) \<Longrightarrow> iadd a b = Some (a + b) \<and> sint (a + b) = sint a + sint b"
  by (simp add: iadd_def in_int_def sint_word_add stb31)

lemma isub_Some: "in_int (sint a - sint b) \<Longrightarrow> isub a b = Some (a - b) \<and> sint (a - b) = sint a - sint b"
  by (simp add: isub_def in_int_def sint_word_diff stb31)

lemma sint_word_of_int32: "in_int i \<Longrightarrow> sint (word_of_int i :: 32 word) = i"
  by (simp add: in_int_def sint_sbintrunc' stb31)

lemma uint_and_const:
  "0 \<le> uint (w AND c) \<and> uint (w AND c) \<le> uint c" for w c :: "32 word"
  by (simp add: uint_and)

lemma and_or_plus:
  "(w AND 0x7FFFFF) OR 0x3F800000 = (w AND 0x7FFFFF) + 0x3F800000" for w :: "32 word"
proof -
  have "(w AND 0x7FFFFF) AND 0x3F800000 = w AND (0x7FFFFF AND 0x3F800000)"
    by (simp only: and.assoc)
  also have "\<dots> = 0" by simp
  finally show ?thesis by (simp add: disjunctive_add_eq_or)
qed

lemma uint_mant_one:
  "uint ((w AND 0x7FFFFF) OR 0x3F800000) = 127 * 2 ^ 23 + uint w mod 2 ^ 23" for w :: "32 word"
proof -
  have "uint w mod 2 ^ 23 < 2 ^ 23" by simp
  then show ?thesis
    unfolding and_or_plus by (simp add: uint_word_ariths uint_frac)
qed

lemma dec32_mant_one:
  "dec32 ((w AND 0x7FFFFF) OR 0x3F800000) = Fin False (dy (2 ^ 23 + uint w mod 2 ^ 23) (- 23))"
proof -
  define r where "r = uint w mod 2 ^ 23"
  have r: "0 \<le> r" "r < 2 ^ 23" by (simp_all add: r_def)
  have u: "uint ((w AND 0x7FFFFF) OR 0x3F800000) = 127 * 2 ^ 23 + r"
    using uint_mant_one by (simp add: r_def)
  have d: "(127 * 2 ^ 23 + r) div 2 ^ 23 = 127"
  proof -
    have "(r + 127 * 2 ^ 23) div 2 ^ 23 = 127 + r div 2 ^ 23" by (rule div_mult_self1) simp
    then show ?thesis using r by (simp add: add.commute)
  qed
  have m: "(127 * 2 ^ 23 + r) mod 2 ^ 23 = r"
  proof -
    have "(r + 127 * 2 ^ 23) mod 2 ^ 23 = r mod 2 ^ 23" by (rule mod_mult_self1)
    then show ?thesis using r by (simp add: add.commute)
  qed
  have s: "\<not> (2 ^ 31 \<le> 127 * 2 ^ 23 + r)" using r by simp
  show ?thesis
    unfolding dec32_uint u Let_def d m r_def [symmetric] using s by simp
qed

lemma in_range_mant_one: "in_range 1 2 (dec32 ((w AND 0x7FFFFF) OR 0x3F800000))"
proof -
  define r where "r = uint w mod 2 ^ 23"
  have r: "0 \<le> r" "r < 2 ^ 23" by (simp_all add: r_def)
  have "(of_int r :: rat) < of_int (2 ^ 23)" using r(2) by (simp only: of_int_less_iff)
  then have a: "(of_int r :: rat) < 2 ^ 23" by simp
  have b: "(0 :: rat) \<le> of_int r" using r(1) by simp
  have p: "pow2 (- 23) = 1 / 8388608" by code_simp
  show ?thesis
    unfolding dec32_mant_one r_def [symmetric] using a b
    by (simp add: dy_pow2 sval_def p field_simps)
qed

lemma in_range_fv_cast:
  assumes "in_range a b x" "L \<le> a" "b \<le> H" "exact f L" "exact f H" "0 < prec f"
  shows "in_range L H (fv_cast f x)"
proof -
  from assms(1) obtain s m where x: "x = Fin s m" by (cases x) auto
  have "0 \<le> m" "L \<le> sval s m" "sval s m \<le> H" using assms(1-3) unfolding x by auto
  then show ?thesis unfolding x using assms(4-6) by (simp add: in_range_fv_round)
qed

lemma in_range_finite: "in_range a b x \<Longrightarrow> is_finite x"
  by (cases x) auto

lemma dec32_d2f_in_range:
  assumes "in_range a b d"
  shows "dec32 (d2f d) = fv_cast binary32 d"
proof -
  from assms obtain s m where d: "d = Fin s m" and m: "0 \<le> m" by (cases d) auto
  show ?thesis unfolding d2f_def d by (rule dec32_enc32) (simp add: valid_fv_round m)
qed

text \<open>The constants of \<open>POLYLOG\<close>.\<close>

lemma polylog_consts:
  "in_range (- (1 / 16)) (- (1 / 32)) (dec32 (fneg (flit (34436006 / 10 ^ 9))))"
  "in_range (1 / 4) (1 / 2) (dec32 (flit (31821337 / 10 ^ 8)))"
  "in_range (- 2) (- 1) (dec32 (fneg (flit (12315303 / 10 ^ 7))))"
  "in_range 2 4 (dlit (25988452 / 10 ^ 7))"
  "in_range (- 4) (- 2) (dec32 (fneg (flit (33241990 / 10 ^ 7))))"
  "in_range 2 4 (dec32 (flit (31157899 / 10 ^ 7)))"
  by code_simp+

lemma exact32_consts:
  "exact binary32 (- (1 / 8))" "exact binary32 0" "exact binary32 (1 / 8)" "exact binary32 (1 / 2)"
  "exact binary32 1" "exact binary32 (- 2)" "exact binary32 (- 4)" "exact binary32 (- 32)"
  "exact binary32 32" "exact binary32 (- 256)" "exact binary32 256"
  "exact binary32 (- 127)" "exact binary32 128"
  by code_simp+

lemma exact64_consts:
  "exact binary64 (- 2)" "exact binary64 4" "exact binary64 (- 4)" "exact binary64 8"
  "exact binary64 (- 8)" "exact binary64 (- 16)" "exact binary64 16"
  "exact binary64 (- 32)" "exact binary64 32"
  by code_simp+

lemma in_range_POLYLOG:
  assumes "in_range 1 2 (dec32 x)"
  shows "in_range (- 32) 32 (dec32 (POLYLOG x))"
proof -
  note [simp] = dec32_fadd dec32_fmul f2d_def
  define t1 where "t1 = fadd (fmul x (fneg (flit (34436006 / 10 ^ 9)))) (flit (31821337 / 10 ^ 8))"
  define t2 where "t2 = fadd (fmul x t1) (fneg (flit (12315303 / 10 ^ 7)))"
  define t3 where "t3 = fv_add binary64 (f2d (fmul x t2)) (dlit (25988452 / 10 ^ 7))"
  define t4 where "t4 = fv_add binary64 (fv_mul binary64 (f2d x) t3) (f2d (fneg (flit (33241990 / 10 ^ 7))))"
  define t5 where "t5 = fv_add binary64 (fv_mul binary64 (f2d x) t4) (f2d (flit (31157899 / 10 ^ 7)))"
  have p1: "in_range (- (1 / 8)) 0 (dec32 (fmul x (fneg (flit (34436006 / 10 ^ 9)))))"
    unfolding dec32_fmul
    by (rule in_range_fv_mul [OF assms polylog_consts(1)]) (simp_all add: exact32_consts)
  have r1: "in_range (1 / 8) (1 / 2) (dec32 t1)"
    unfolding t1_def dec32_fadd
    by (rule in_range_fv_add [OF p1 polylog_consts(2)]) (simp_all add: exact32_consts)
  have p2: "in_range (1 / 8) 1 (dec32 (fmul x t1))"
    unfolding dec32_fmul
    by (rule in_range_fv_mul [OF assms r1]) (simp_all add: exact32_consts)
  have r2: "in_range (- 2) 0 (dec32 t2)"
    unfolding t2_def dec32_fadd
    by (rule in_range_fv_add [OF p2 polylog_consts(3)]) (simp_all add: exact32_consts)
  have p3: "in_range (- 4) 0 (dec32 (fmul x t2))"
    unfolding dec32_fmul
    by (rule in_range_fv_mul [OF assms r2]) (simp_all add: exact32_consts)
  have r3: "in_range (- 4) 4 t3"
    unfolding t3_def f2d_def
    by (rule in_range_fv_add [OF p3 polylog_consts(4)]) (simp_all add: exact64_consts)
  have p4: "in_range (- 8) 8 (fv_mul binary64 (f2d x) t3)"
    unfolding f2d_def
    by (rule in_range_fv_mul [OF assms r3]) (simp_all add: exact64_consts)
  have r4: "in_range (- 16) 8 t4"
    unfolding t4_def
    by (rule in_range_fv_add [OF p4 polylog_consts(5) [folded f2d_def]]) (simp_all add: exact64_consts)
  have p5: "in_range (- 32) 16 (fv_mul binary64 (f2d x) t4)"
    unfolding f2d_def
    by (rule in_range_fv_mul [OF assms r4]) (simp_all add: exact64_consts)
  have r5: "in_range (- 32) 32 t5"
    unfolding t5_def
    by (rule in_range_fv_add [OF p5 polylog_consts(6) [folded f2d_def]]) (simp_all add: exact64_consts)
  have "POLYLOG x = d2f t5"
    by (simp add: POLYLOG_def Let_def t1_def t2_def t3_def t4_def t5_def del: dec32_fadd dec32_fmul f2d_def)
  moreover have "in_range (- 32) 32 (dec32 (d2f t5))"
    unfolding dec32_d2f_in_range [OF r5]
    by (rule in_range_fv_cast [OF r5]) (simp_all add: exact32_consts)
  ultimately show ?thesis by simp
qed

subsection \<open>The comparison, and some constants\<close>

lemma fv_lt_trans: "fv_lt a b \<Longrightarrow> fv_lt b c \<Longrightarrow> fv_lt a c"
  by (cases a; cases b; cases c) auto

lemma fv_lt_irrefl: "\<not> fv_lt a a"
  by (cases a) auto

lemma flt_LOW_HI: "flt f_LOW f_HI"
  by code_simp

lemma not_flt_HI_LOW: "\<not> flt f_HI f_LOW"
  using flt_LOW_HI fv_lt_trans fv_lt_irrefl unfolding flt_def by blast

lemma flit_1: "flit 1 = 0x3F800000"
  by code_simp

lemma dec32_one: "dec32 0x3F800000 = Fin False 1"
  by code_simp

subsection \<open>Integers and truncation\<close>

lemma repr_of_int:
  assumes "0 \<le> k" "k < 2 ^ 24"
  shows "repr binary32 (of_int k)"
proof -
  have "repr binary32 (dy k 0)" using assms by (intro reprI) simp_all
  then show ?thesis by (simp add: dy_pow2)
qed

lemma rnd_of_int: "0 \<le> k \<Longrightarrow> k < 2 ^ 24 \<Longrightarrow> rnd binary32 (of_int k) = of_int k"
  by (rule rnd_exact) (rule repr_of_int)

lemma fv_of_rat_of_int:
  assumes "\<bar>k\<bar> < 2 ^ 24"
  shows "fv_of_rat binary32 False (of_int k) = Fin (k < 0) (of_int \<bar>k\<bar>)"
proof (cases "k = 0")
  case True
  then show ?thesis by (simp add: fv_of_rat_def)
next
  case False
  have r: "rnd binary32 (of_int \<bar>k\<bar>) = of_int \<bar>k\<bar>" using assms by (intro rnd_of_int) simp_all
  have "(of_int \<bar>k\<bar> :: rat) < of_int (2 ^ 24)" using assms by (simp only: of_int_less_iff)
  also have "\<dots> \<le> pow2 128" using pow2_mono [of 24 128] pow2_nat [of 24] by simp
  finally have b: "(of_int \<bar>k\<bar> :: rat) < pow2 128" .
  have "\<bar>of_int k :: rat\<bar> = of_int \<bar>k\<bar>" by simp
  then show ?thesis using False r b
    by (simp add: fv_of_rat_def fv_round_def Let_def not_le del: of_int_abs)
qed

lemma in_range_of_int:
  assumes "\<bar>k\<bar> < 2 ^ 24"
  shows "in_range (of_int k) (of_int k) (fv_of_rat binary32 False (of_int k))"
  unfolding fv_of_rat_of_int [OF assms] by (cases "k < 0") (simp_all add: sval_def)

lemma in_range_i2f:
  assumes "\<bar>sint i\<bar> < 2 ^ 24"
  shows "in_range (of_int (sint i)) (of_int (sint i)) (dec32 (i2f i))"
  unfolding dec32_i2f by (rule in_range_of_int [OF assms])

text \<open>The truncation of a rounded number is less than one away from the number.\<close>

lemma trunc_near:
  assumes "\<bar>u\<bar> \<le> 2 ^ 23" "fv_to_int (fv_of_rat binary32 z u) = Some n"
  shows "of_int n - 1 < u \<and> u < of_int n + 1"
proof (cases "u = 0")
  case True
  then show ?thesis using assms(2) by (auto simp: fv_of_rat_def split: if_splits)
next
  case False
  define r where "r = rnd binary32 \<bar>u\<bar>"
  have r0: "0 \<le> r" unfolding r_def by (rule rnd_nonneg) simp
  have "repr binary32 (of_int (2 ^ 23))" by (rule repr_of_int) simp_all
  then have "repr binary32 (2 ^ 23)" by simp
  from rnd_le [OF _ assms(1) this] have r1: "r \<le> 2 ^ 23" by (simp add: r_def)
  have "(2::rat) ^ 23 < pow2 128" using pow2_strict_mono [of 23 128] pow2_nat [of 23] by simp
  then have D: "fv_of_rat binary32 z u = Fin (u < 0) r"
    using False r1 by (simp add: fv_of_rat_def fv_round_def Let_def r_def [symmetric] not_le)
  define k where "k = \<lfloor>r\<rfloor>"
  have k0: "0 \<le> k" using r0 by (simp add: k_def)
  have "r < 2 ^ 23 + 1" using r1 by simp
  then have "k < 2 ^ 23 + 1" unfolding k_def by (simp add: floor_less_iff)
  then have k1: "k < 2 ^ 24 - 1" by simp
  have kr: "of_int k \<le> r" "r < of_int k + 1" unfolding k_def by linarith+
  have up: "\<bar>u\<bar> < of_int k + 1"
  proof (rule ccontr)
    assume "\<not> \<bar>u\<bar> < of_int k + 1"
    then have "of_int (k + 1) \<le> \<bar>u\<bar>" by simp
    moreover have "repr binary32 (of_int (k + 1))" using k0 k1 by (intro repr_of_int) simp_all
    ultimately have "of_int (k + 1) \<le> r" unfolding r_def by (intro rnd_ge) simp_all
    then show False using kr(2) by simp
  qed
  have lo: "of_int k - 1 < \<bar>u\<bar>"
  proof (rule ccontr)
    assume a: "\<not> of_int k - 1 < \<bar>u\<bar>"
    then have le: "\<bar>u\<bar> \<le> of_int (k - 1)" by simp
    then have "(0::rat) \<le> of_int (k - 1)" using abs_ge_zero [of u] by linarith
    then have "0 \<le> k - 1" by (simp only: of_int_0_le_iff)
    then have "repr binary32 (of_int (k - 1))" using k1 by (intro repr_of_int) simp_all
    from rnd_le [OF _ le this] have "r \<le> of_int (k - 1)" by (simp add: r_def)
    then show False using kr(1) by simp
  qed
  show ?thesis
  proof (cases "u < 0")
    case True
    then have "n = - k" using assms(2) D by (simp add: k_def)
    then show ?thesis using up lo True by simp
  next
    case False
    then have "n = k" using assms(2) D by (simp add: k_def)
    then show ?thesis using up lo False by simp
  qed
qed

lemma fv_to_int_range:
  assumes "in_range a b v" "of_int A - 1 < a" "b < of_int B + 1" "A \<le> 0" "0 \<le> B"
  shows "\<exists>n. fv_to_int v = Some n \<and> A \<le> n \<and> n \<le> B"
proof -
  from assms(1) obtain s m where v: "v = Fin s m" and m: "0 \<le> m"
    and b: "a \<le> sval s m" "sval s m \<le> b" by (cases v) auto
  define k where "k = \<lfloor>m\<rfloor>"
  have k0: "0 \<le> k" using m by (simp add: k_def)
  have km: "of_int k \<le> m" unfolding k_def by linarith
  show ?thesis
  proof (cases s)
    case True
    then have "of_int k < (of_int (- A + 1) :: rat)" using b(1) assms(2) km by (simp add: sval_def)
    then have "k < - A + 1" by (simp only: of_int_less_iff)
    moreover have "fv_to_int v = Some (- k)" using True by (simp add: v k_def)
    ultimately show ?thesis using k0 assms(5) by simp
  next
    case False
    then have "of_int k < (of_int (B + 1) :: rat)" using b(2) assms(3) km by (simp add: sval_def)
    then have "k < B + 1" by (simp only: of_int_less_iff)
    moreover have "fv_to_int v = Some k" using False by (simp add: v k_def)
    ultimately show ?thesis using k0 assms(4) by simp
  qed
qed

subsection \<open>More on intervals\<close>

lemma in_range_split:
  assumes "in_range a b x" "a \<le> 0" "0 \<le> b"
  shows "in_range a 0 x \<or> in_range 0 b x"
proof -
  from assms(1) obtain s m where x: "x = Fin s m" by (cases x) auto
  show ?thesis using assms unfolding x by (cases s) (auto simp: sval_def)
qed

lemma in_range_fv_of_rat_up:
  assumes "L \<le> v" "v \<le> H" "0 \<le> H" "exact f L" "rnd f H < pow2 (emax f + 1)" "0 < prec f"
  shows "in_range L (rnd f H) (fv_of_rat f z v)"
proof (cases "0 < v")
  case True
  have m: "rnd f v \<le> rnd f H" using True assms(2,6) by (intro rnd_mono) simp_all
  have lo: "L \<le> rnd f v"
  proof (cases "L \<le> 0")
    case True
    then show ?thesis using rnd_nonneg [of v f] \<open>0 < v\<close> by linarith
  next
    case False
    then have "\<bar>L\<bar> \<le> v" using assms(1) by simp
    from rnd_ge [OF this exact_repr [OF assms(4,6)] assms(6)] show ?thesis using False by simp
  qed
  have "0 \<le> rnd f v" using True by (intro rnd_nonneg) simp
  then show ?thesis using True m lo assms(5)
    by (simp add: fv_of_rat_def fv_round_def Let_def not_le sval_def)
next
  case False
  then have v: "v \<le> 0" by simp
  have "exact f 0" by (simp add: exact_def)
  from in_range_fv_of_rat [OF assms(1) v assms(4) this assms(6)]
  have "in_range L 0 (fv_of_rat f z v)" .
  from in_range_weaken [OF this _ rnd_nonneg [OF assms(3)]] show ?thesis by simp
qed

lemma in_range_fv_add_up:
  assumes "in_range a b x" "in_range c d y" "L \<le> a + c" "0 \<le> b + d"
    "exact f L" "rnd f (b + d) < pow2 (emax f + 1)" "0 < prec f"
  shows "in_range L (rnd f (b + d)) (fv_add f x y)"
proof -
  from assms(1) obtain s m where x: "x = Fin s m" by (cases x) auto
  from assms(2) obtain t n where y: "y = Fin t n" by (cases y) auto
  have "L \<le> sval s m + sval t n" "sval s m + sval t n \<le> b + d"
    using assms(1-3) unfolding x y by auto
  then show ?thesis unfolding x y using assms(4-7) by (simp add: in_range_fv_of_rat_up)
qed

subsection \<open>The structure of \<open>fExp2\<close>\<close>

lemma dec32_f_HI: "dec32 f_HI = Fin False 129"
  by code_simp

lemma dec32_f_LOW: "dec32 f_LOW = Fin True (16646143 / 131072)"
  by code_simp

lemma dec32_half: "dec32 (flit (1 / 2)) = Fin False (1 / 2)"
  by code_simp

lemma clamp_alt:
  "fmax (fmin x f_HI) f_LOW = (if flt f_HI x then f_HI else if flt x f_LOW then f_LOW else x)"
  using not_flt_HI_LOW by (simp add: fmin_def fmax_def)

lemma valid_Fin_nonneg: "dec32 x = Fin s m \<Longrightarrow> 0 \<le> m"
  using valid_dec32 [of x] valid_nonneg [of binary32 s m] by simp

text \<open>The clamped argument lies between \<open>f_LOW\<close> and \<open>f_HI\<close>, and below any bound of the argument.\<close>

lemma clamp_range:
  assumes "\<not> is_nan (dec32 x)" "H = 129 \<or> \<not> fv_lt (Fin False H) (dec32 x)"
    "- (16646143 / 131072) \<le> H" "H \<le> 129"
  shows "in_range (- (16646143 / 131072)) H (dec32 (fmax (fmin x f_HI) f_LOW))"
proof (cases "dec32 x")
  case NaN
  then show ?thesis using assms(1) by simp
next
  case (Inf s)
  then show ?thesis using assms(2-4)
    by (cases s) (auto simp: clamp_alt flt_def dec32_f_HI dec32_f_LOW sval_def)
next
  case (Fin s m)
  have "0 \<le> m" using Fin by (rule valid_Fin_nonneg)
  then show ?thesis using assms(2-4) Fin
    by (auto simp: clamp_alt flt_def dec32_f_HI dec32_f_LOW sval_def)
qed

lemma clamp_range_lower:
  assumes "\<not> is_nan (dec32 x)" "\<not> fv_lt (dec32 x) (Fin False A)" "0 \<le> A" "A \<le> 129"
  shows "in_range A 129 (dec32 (fmax (fmin x f_HI) f_LOW))"
proof (cases "dec32 x")
  case NaN
  then show ?thesis using assms(1) by simp
next
  case (Inf s)
  then show ?thesis using assms(2-4)
    by (cases s) (auto simp: clamp_alt flt_def dec32_f_HI dec32_f_LOW sval_def)
next
  case (Fin s m)
  have "0 \<le> m" using Fin by (rule valid_Fin_nonneg)
  then show ?thesis using assms(2-4) Fin
    by (auto simp: clamp_alt flt_def dec32_f_HI dec32_f_LOW sval_def)
qed

text \<open>The bit pattern \<open>(n + 127) << 23\<close> is zero, the power \<open>2^n\<close>, or the infinity.\<close>

lemma dec32_expipart:
  assumes "- 127 \<le> n" "n \<le> 128"
  shows "dec32 (word_of_int ((n + 127) * 2 ^ 23)) =
    (if n = 128 then Inf False else if n = - 127 then Fin False 0 else Fin False (pow2 n))"
proof (cases "n = 128")
  case True
  have "dec32 (word_of_int (255 * 2 ^ 23)) = Inf False" by code_simp
  then show ?thesis using True by simp
next
  case False
  define N where "N = (n + 127) * 2 ^ 23"
  have N: "0 \<le> N" "N < 255 * 2 ^ 23" using assms False by (simp_all add: N_def)
  have d: "N div 2 ^ 23 = n + 127" by (simp add: N_def)
  have m: "N mod 2 ^ 23 = 0" by (simp add: N_def)
  have "dy (2 ^ 23) (n - 23) = pow2 n"
    using pow2_nat [of 23] by (simp add: dy_pow2 pow2_diff)
  then show ?thesis
    using dec32_sign_plus [OF N, of False, unfolded d m] False
    by (simp add: sign_bit_def N_def)
qed

lemma fExp2_unfold:
  assumes "\<not> is_nan (dec32 x)"
  shows "\<exists>n. fv_to_int (dec32 (fsub (fmax (fmin x f_HI) f_LOW) (flit (1 / 2)))) = Some n \<and>
    - 127 \<le> n \<and> n \<le> 128 \<and>
    fExp2 x = Some (fmul (word_of_int ((n + 127) * 2 ^ 23))
      (POLYEXP (fsub (fmax (fmin x f_HI) f_LOW) (i2f (word_of_int n)))))"
proof -
  define c where "c = fmax (fmin x f_HI) f_LOW"
  have "129 = (129::rat) \<or> \<not> fv_lt (Fin False 129) (dec32 x)" by simp
  from clamp_range [OF assms this] have rc: "in_range (- (16646143 / 131072)) 129 (dec32 c)"
    by (simp add: c_def)
  have h: "in_range (1 / 2) (1 / 2) (dec32 (flit (1 / 2)))" by (simp add: dec32_half sval_def)
  have e1: "exact binary32 (- (16711679 / 131072))" and e2: "exact binary32 (257 / 2)"
    by code_simp+
  have rd: "in_range (- (16711679 / 131072)) (257 / 2) (dec32 (fsub c (flit (1 / 2))))"
    unfolding dec32_fsub by (rule in_range_fv_sub [OF rc h]) (simp_all add: e1 e2)
  from fv_to_int_range [OF rd, of "- 127" 128] obtain n
    where n: "fv_to_int (dec32 (fsub c (flit (1 / 2)))) = Some n" "- 127 \<le> n" "n \<le> 128"
    by auto
  have ni: "in_int n" using n(2,3) by (simp add: in_int_def)
  have f2i: "f2i (fsub c (flit (1 / 2))) = Some (word_of_int n)" using n(1) ni by (simp add: f2i_def)
  have sn: "sint (word_of_int n :: 32 word) = n" using ni by (rule sint_word_of_int32)
  have "in_int (sint (word_of_int n :: 32 word) + sint (127 :: 32 word))"
    using n(2,3) by (simp add: sn in_int_def)
  from iadd_Some [OF this]
  have ia: "iadd (word_of_int n) 127 = Some (word_of_int n + 127)"
    and sb: "sint (word_of_int n + 127 :: 32 word) = n + 127" by (simp_all add: sn)
  have sh: "ishl (word_of_int n + 127) 23 = Some (push_bit 23 (word_of_int n + 127))"
    using n(2,3) by (simp add: ishl_def sb in_int_def)
  have pb: "push_bit 23 (word_of_int n + 127 :: 32 word) = word_of_int ((n + 127) * 2 ^ 23)"
    by (simp add: push_bit_eq_mult)
  have "fExp2 x = Some (fmul (word_of_int ((n + 127) * 2 ^ 23))
      (POLYEXP (fsub c (i2f (word_of_int n)))))"
    unfolding fExp2_def Let_def c_def [symmetric] by (simp add: f2i ia sh pb)
  then show ?thesis using n unfolding c_def by blast
qed

subsection \<open>Bounds of \<open>POLYEXP\<close>\<close>

lemma polyexp_consts:
  "in_range (16128261 / 8589934592) (16128261 / 8589934592) (dec32 (flit (18775767 / 10 ^ 10)))"
  "in_range (4826115 / 536870912) (4826115 / 536870912) (dec32 (flit (89893397 / 10 ^ 10)))"
  "in_range (14985763 / 268435456) (14985763 / 268435456) (dec32 (flit (55826318 / 10 ^ 9)))"
  "in_range (4029109 / 16777216) (4029109 / 16777216) (dec32 (flit (24015361 / 10 ^ 8)))"
  "in_range (11629179 / 16777216) (11629179 / 16777216) (dec32 (flit (69315308 / 10 ^ 8)))"
  "in_range (16777215 / 16777216) (16777215 / 16777216) (dec32 (flit (99999994 / 10 ^ 8)))"
  by code_simp+

lemma polyexp_exact_neg:
  "exact binary32 (- (1969 / 2097152))"
  "exact binary32 (- (2357 / 524288))"
  "exact binary32 (- (3659 / 131072))"
  "exact binary32 (- (3935 / 32768))"
  "exact binary32 (- (5679 / 16384))"
  "exact binary32 (1055 / 131072)"
  "exact binary32 (2347 / 4096)"
  "exact binary32 (2357 / 262144)"
  "exact binary32 (3477 / 16384)"
  "exact binary32 (3659 / 65536)"
  "exact binary32 (3935 / 16384)"
  "exact binary32 (5679 / 8192)"
  "exact binary32 (669 / 1024)"
  "exact binary32 (841 / 16384)"
  "exact binary32 0"
  "exact binary32 1"
  by code_simp+

lemma in_range_POLYEXP_neg:
  assumes "in_range (- (1 / 2)) 0 (dec32 x)"
  shows "in_range (669 / 1024) 1 (dec32 (POLYEXP x))"
proof -
  have p1: "in_range (- (1969 / 2097152)) 0 (dec32 (fmul x (flit (18775767 / 10 ^ 10))))"
    unfolding dec32_fmul [of x]
    by (rule in_range_fv_mul [OF assms polyexp_consts(1)]) (simp_all add: polyexp_exact_neg)
  have s1: "in_range (1055 / 131072) (2357 / 262144) (dec32 (fadd (fmul x (flit (18775767 / 10 ^ 10))) (flit (89893397 / 10 ^ 10))))"
    unfolding dec32_fadd [of _ "flit (89893397 / 10 ^ 10)"]
    by (rule in_range_fv_add [OF p1 polyexp_consts(2)]) (simp_all add: polyexp_exact_neg)
  have p2: "in_range (- (2357 / 524288)) 0 (dec32 (fmul x (fadd (fmul x (flit (18775767 / 10 ^ 10))) (flit (89893397 / 10 ^ 10)))))"
    unfolding dec32_fmul [of x]
    by (rule in_range_fv_mul [OF assms s1]) (simp_all add: polyexp_exact_neg)
  have s2: "in_range (841 / 16384) (3659 / 65536) (dec32 (fadd (fmul x (fadd (fmul x (flit (18775767 / 10 ^ 10))) (flit (89893397 / 10 ^ 10)))) (flit (55826318 / 10 ^ 9))))"
    unfolding dec32_fadd [of _ "flit (55826318 / 10 ^ 9)"]
    by (rule in_range_fv_add [OF p2 polyexp_consts(3)]) (simp_all add: polyexp_exact_neg)
  have p3: "in_range (- (3659 / 131072)) 0 (dec32 (fmul x (fadd (fmul x (fadd (fmul x (flit (18775767 / 10 ^ 10))) (flit (89893397 / 10 ^ 10)))) (flit (55826318 / 10 ^ 9)))))"
    unfolding dec32_fmul [of x]
    by (rule in_range_fv_mul [OF assms s2]) (simp_all add: polyexp_exact_neg)
  have s3: "in_range (3477 / 16384) (3935 / 16384) (dec32 (fadd (fmul x (fadd (fmul x (fadd (fmul x (flit (18775767 / 10 ^ 10))) (flit (89893397 / 10 ^ 10)))) (flit (55826318 / 10 ^ 9)))) (flit (24015361 / 10 ^ 8))))"
    unfolding dec32_fadd [of _ "flit (24015361 / 10 ^ 8)"]
    by (rule in_range_fv_add [OF p3 polyexp_consts(4)]) (simp_all add: polyexp_exact_neg)
  have p4: "in_range (- (3935 / 32768)) 0 (dec32 (fmul x (fadd (fmul x (fadd (fmul x (fadd (fmul x (flit (18775767 / 10 ^ 10))) (flit (89893397 / 10 ^ 10)))) (flit (55826318 / 10 ^ 9)))) (flit (24015361 / 10 ^ 8)))))"
    unfolding dec32_fmul [of x]
    by (rule in_range_fv_mul [OF assms s3]) (simp_all add: polyexp_exact_neg)
  have s4: "in_range (2347 / 4096) (5679 / 8192) (dec32 (fadd (fmul x (fadd (fmul x (fadd (fmul x (fadd (fmul x (flit (18775767 / 10 ^ 10))) (flit (89893397 / 10 ^ 10)))) (flit (55826318 / 10 ^ 9)))) (flit (24015361 / 10 ^ 8)))) (flit (69315308 / 10 ^ 8))))"
    unfolding dec32_fadd [of _ "flit (69315308 / 10 ^ 8)"]
    by (rule in_range_fv_add [OF p4 polyexp_consts(5)]) (simp_all add: polyexp_exact_neg)
  have p5: "in_range (- (5679 / 16384)) 0 (dec32 (fmul x (fadd (fmul x (fadd (fmul x (fadd (fmul x (fadd (fmul x (flit (18775767 / 10 ^ 10))) (flit (89893397 / 10 ^ 10)))) (flit (55826318 / 10 ^ 9)))) (flit (24015361 / 10 ^ 8)))) (flit (69315308 / 10 ^ 8)))))"
    unfolding dec32_fmul [of x]
    by (rule in_range_fv_mul [OF assms s4]) (simp_all add: polyexp_exact_neg)
  have s5: "in_range (669 / 1024) 1 (dec32 (fadd (fmul x (fadd (fmul x (fadd (fmul x (fadd (fmul x (fadd (fmul x (flit (18775767 / 10 ^ 10))) (flit (89893397 / 10 ^ 10)))) (flit (55826318 / 10 ^ 9)))) (flit (24015361 / 10 ^ 8)))) (flit (69315308 / 10 ^ 8)))) (flit (99999994 / 10 ^ 8))))"
    unfolding dec32_fadd [of _ "flit (99999994 / 10 ^ 8)"]
    by (rule in_range_fv_add [OF p5 polyexp_consts(6)]) (simp_all add: polyexp_exact_neg)
  show ?thesis using s5 by (simp add: POLYEXP_def)
qed

lemma polyexp_exact_pos:
  "exact binary32 (1077 / 2048)"
  "exact binary32 (1205 / 16384)"
  "exact binary32 (2497 / 2048)"
  "exact binary32 (2839 / 4096)"
  "exact binary32 (2897 / 1024)"
  "exact binary32 (3095 / 262144)"
  "exact binary32 (3615 / 32768)"
  "exact binary32 (4643 / 262144)"
  "exact binary32 (4713 / 524288)"
  "exact binary32 (5743 / 16384)"
  "exact binary32 (5907 / 2097152)"
  "exact binary32 (7317 / 131072)"
  "exact binary32 (7491 / 4096)"
  "exact binary32 (7869 / 32768)"
  "exact binary32 (8191 / 8192)"
  "exact binary32 0"
  by code_simp+

lemma in_range_POLYEXP_pos:
  assumes "in_range 0 (3 / 2) (dec32 x)"
  shows "in_range (8191 / 8192) (2897 / 1024) (dec32 (POLYEXP x))"
proof -
  have p1: "in_range 0 (5907 / 2097152) (dec32 (fmul x (flit (18775767 / 10 ^ 10))))"
    unfolding dec32_fmul [of x]
    by (rule in_range_fv_mul [OF assms polyexp_consts(1)]) (simp_all add: polyexp_exact_pos)
  have s1: "in_range (4713 / 524288) (3095 / 262144) (dec32 (fadd (fmul x (flit (18775767 / 10 ^ 10))) (flit (89893397 / 10 ^ 10))))"
    unfolding dec32_fadd [of _ "flit (89893397 / 10 ^ 10)"]
    by (rule in_range_fv_add [OF p1 polyexp_consts(2)]) (simp_all add: polyexp_exact_pos)
  have p2: "in_range 0 (4643 / 262144) (dec32 (fmul x (fadd (fmul x (flit (18775767 / 10 ^ 10))) (flit (89893397 / 10 ^ 10)))))"
    unfolding dec32_fmul [of x]
    by (rule in_range_fv_mul [OF assms s1]) (simp_all add: polyexp_exact_pos)
  have s2: "in_range (7317 / 131072) (1205 / 16384) (dec32 (fadd (fmul x (fadd (fmul x (flit (18775767 / 10 ^ 10))) (flit (89893397 / 10 ^ 10)))) (flit (55826318 / 10 ^ 9))))"
    unfolding dec32_fadd [of _ "flit (55826318 / 10 ^ 9)"]
    by (rule in_range_fv_add [OF p2 polyexp_consts(3)]) (simp_all add: polyexp_exact_pos)
  have p3: "in_range 0 (3615 / 32768) (dec32 (fmul x (fadd (fmul x (fadd (fmul x (flit (18775767 / 10 ^ 10))) (flit (89893397 / 10 ^ 10)))) (flit (55826318 / 10 ^ 9)))))"
    unfolding dec32_fmul [of x]
    by (rule in_range_fv_mul [OF assms s2]) (simp_all add: polyexp_exact_pos)
  have s3: "in_range (7869 / 32768) (5743 / 16384) (dec32 (fadd (fmul x (fadd (fmul x (fadd (fmul x (flit (18775767 / 10 ^ 10))) (flit (89893397 / 10 ^ 10)))) (flit (55826318 / 10 ^ 9)))) (flit (24015361 / 10 ^ 8))))"
    unfolding dec32_fadd [of _ "flit (24015361 / 10 ^ 8)"]
    by (rule in_range_fv_add [OF p3 polyexp_consts(4)]) (simp_all add: polyexp_exact_pos)
  have p4: "in_range 0 (1077 / 2048) (dec32 (fmul x (fadd (fmul x (fadd (fmul x (fadd (fmul x (flit (18775767 / 10 ^ 10))) (flit (89893397 / 10 ^ 10)))) (flit (55826318 / 10 ^ 9)))) (flit (24015361 / 10 ^ 8)))))"
    unfolding dec32_fmul [of x]
    by (rule in_range_fv_mul [OF assms s3]) (simp_all add: polyexp_exact_pos)
  have s4: "in_range (2839 / 4096) (2497 / 2048) (dec32 (fadd (fmul x (fadd (fmul x (fadd (fmul x (fadd (fmul x (flit (18775767 / 10 ^ 10))) (flit (89893397 / 10 ^ 10)))) (flit (55826318 / 10 ^ 9)))) (flit (24015361 / 10 ^ 8)))) (flit (69315308 / 10 ^ 8))))"
    unfolding dec32_fadd [of _ "flit (69315308 / 10 ^ 8)"]
    by (rule in_range_fv_add [OF p4 polyexp_consts(5)]) (simp_all add: polyexp_exact_pos)
  have p5: "in_range 0 (7491 / 4096) (dec32 (fmul x (fadd (fmul x (fadd (fmul x (fadd (fmul x (fadd (fmul x (flit (18775767 / 10 ^ 10))) (flit (89893397 / 10 ^ 10)))) (flit (55826318 / 10 ^ 9)))) (flit (24015361 / 10 ^ 8)))) (flit (69315308 / 10 ^ 8)))))"
    unfolding dec32_fmul [of x]
    by (rule in_range_fv_mul [OF assms s4]) (simp_all add: polyexp_exact_pos)
  have s5: "in_range (8191 / 8192) (2897 / 1024) (dec32 (fadd (fmul x (fadd (fmul x (fadd (fmul x (fadd (fmul x (fadd (fmul x (flit (18775767 / 10 ^ 10))) (flit (89893397 / 10 ^ 10)))) (flit (55826318 / 10 ^ 9)))) (flit (24015361 / 10 ^ 8)))) (flit (69315308 / 10 ^ 8)))) (flit (99999994 / 10 ^ 8))))"
    unfolding dec32_fadd [of _ "flit (99999994 / 10 ^ 8)"]
    by (rule in_range_fv_add [OF p5 polyexp_consts(6)]) (simp_all add: polyexp_exact_pos)
  show ?thesis using s5 by (simp add: POLYEXP_def)
qed

lemma polyexp_exact_one:
  "exact binary32 (11629179 / 16777216)"
  "exact binary32 (11668263 / 1073741824)"
  "exact binary32 (1287009 / 4194304)"
  "exact binary32 (14985763 / 268435456)"
  "exact binary32 (16128261 / 8589934592)"
  "exact binary32 (16777215 / 16777216)"
  "exact binary32 (4029109 / 16777216)"
  "exact binary32 (4475707 / 67108864)"
  "exact binary32 (4826115 / 536870912)"
  "exact binary32 0"
  by code_simp+

lemma polyexp_sum_one:
  "rnd binary32 ((16128261 / 8589934592) + (4826115 / 536870912)) = (11668263 / 1073741824)"
  "rnd binary32 ((11668263 / 1073741824) + (14985763 / 268435456)) = (4475707 / 67108864)"
  "rnd binary32 ((4475707 / 67108864) + (4029109 / 16777216)) = (1287009 / 4194304)"
  "rnd binary32 ((1287009 / 4194304) + (11629179 / 16777216)) = (16777215 / 16777216)"
  "rnd binary32 ((16777215 / 16777216) + (16777215 / 16777216)) = (16777215 / 8388608)"
  by code_simp+

lemma polyexp_sum_fin:
  "rnd binary32 ((16128261 / 8589934592) + (4826115 / 536870912)) < pow2 (emax binary32 + 1)"
  "rnd binary32 ((11668263 / 1073741824) + (14985763 / 268435456)) < pow2 (emax binary32 + 1)"
  "rnd binary32 ((4475707 / 67108864) + (4029109 / 16777216)) < pow2 (emax binary32 + 1)"
  "rnd binary32 ((1287009 / 4194304) + (11629179 / 16777216)) < pow2 (emax binary32 + 1)"
  "rnd binary32 ((16777215 / 16777216) + (16777215 / 16777216)) < pow2 (emax binary32 + 1)"
  by code_simp+

text \<open>On \<open>[0, 1]\<close> every step is monotone, so the value at 1 bounds the polynomial.\<close>

lemma in_range_POLYEXP_one:
  assumes "in_range 0 1 (dec32 x)"
  shows "in_range (16777215 / 16777216) (16777215 / 8388608) (dec32 (POLYEXP x))"
proof -
  have p1: "in_range 0 (16128261 / 8589934592) (dec32 (fmul x (flit (18775767 / 10 ^ 10))))"
    unfolding dec32_fmul [of x]
    by (rule in_range_fv_mul [OF assms polyexp_consts(1)]) (simp_all add: polyexp_exact_one)
  have s1: "in_range (4826115 / 536870912) (11668263 / 1073741824) (dec32 (fadd (fmul x (flit (18775767 / 10 ^ 10))) (flit (89893397 / 10 ^ 10))))"
    unfolding dec32_fadd [of _ "flit (89893397 / 10 ^ 10)"] polyexp_sum_one(1) [symmetric]
    by (rule in_range_fv_add_up [OF p1 polyexp_consts(2) _ _ _ polyexp_sum_fin(1)]) (simp_all add: polyexp_exact_one)
  have p2: "in_range 0 (11668263 / 1073741824) (dec32 (fmul x (fadd (fmul x (flit (18775767 / 10 ^ 10))) (flit (89893397 / 10 ^ 10)))))"
    unfolding dec32_fmul [of x]
    by (rule in_range_fv_mul [OF assms s1]) (simp_all add: polyexp_exact_one)
  have s2: "in_range (14985763 / 268435456) (4475707 / 67108864) (dec32 (fadd (fmul x (fadd (fmul x (flit (18775767 / 10 ^ 10))) (flit (89893397 / 10 ^ 10)))) (flit (55826318 / 10 ^ 9))))"
    unfolding dec32_fadd [of _ "flit (55826318 / 10 ^ 9)"] polyexp_sum_one(2) [symmetric]
    by (rule in_range_fv_add_up [OF p2 polyexp_consts(3) _ _ _ polyexp_sum_fin(2)]) (simp_all add: polyexp_exact_one)
  have p3: "in_range 0 (4475707 / 67108864) (dec32 (fmul x (fadd (fmul x (fadd (fmul x (flit (18775767 / 10 ^ 10))) (flit (89893397 / 10 ^ 10)))) (flit (55826318 / 10 ^ 9)))))"
    unfolding dec32_fmul [of x]
    by (rule in_range_fv_mul [OF assms s2]) (simp_all add: polyexp_exact_one)
  have s3: "in_range (4029109 / 16777216) (1287009 / 4194304) (dec32 (fadd (fmul x (fadd (fmul x (fadd (fmul x (flit (18775767 / 10 ^ 10))) (flit (89893397 / 10 ^ 10)))) (flit (55826318 / 10 ^ 9)))) (flit (24015361 / 10 ^ 8))))"
    unfolding dec32_fadd [of _ "flit (24015361 / 10 ^ 8)"] polyexp_sum_one(3) [symmetric]
    by (rule in_range_fv_add_up [OF p3 polyexp_consts(4) _ _ _ polyexp_sum_fin(3)]) (simp_all add: polyexp_exact_one)
  have p4: "in_range 0 (1287009 / 4194304) (dec32 (fmul x (fadd (fmul x (fadd (fmul x (fadd (fmul x (flit (18775767 / 10 ^ 10))) (flit (89893397 / 10 ^ 10)))) (flit (55826318 / 10 ^ 9)))) (flit (24015361 / 10 ^ 8)))))"
    unfolding dec32_fmul [of x]
    by (rule in_range_fv_mul [OF assms s3]) (simp_all add: polyexp_exact_one)
  have s4: "in_range (11629179 / 16777216) (16777215 / 16777216) (dec32 (fadd (fmul x (fadd (fmul x (fadd (fmul x (fadd (fmul x (flit (18775767 / 10 ^ 10))) (flit (89893397 / 10 ^ 10)))) (flit (55826318 / 10 ^ 9)))) (flit (24015361 / 10 ^ 8)))) (flit (69315308 / 10 ^ 8))))"
    unfolding dec32_fadd [of _ "flit (69315308 / 10 ^ 8)"] polyexp_sum_one(4) [symmetric]
    by (rule in_range_fv_add_up [OF p4 polyexp_consts(5) _ _ _ polyexp_sum_fin(4)]) (simp_all add: polyexp_exact_one)
  have p5: "in_range 0 (16777215 / 16777216) (dec32 (fmul x (fadd (fmul x (fadd (fmul x (fadd (fmul x (fadd (fmul x (flit (18775767 / 10 ^ 10))) (flit (89893397 / 10 ^ 10)))) (flit (55826318 / 10 ^ 9)))) (flit (24015361 / 10 ^ 8)))) (flit (69315308 / 10 ^ 8)))))"
    unfolding dec32_fmul [of x]
    by (rule in_range_fv_mul [OF assms s4]) (simp_all add: polyexp_exact_one)
  have s5: "in_range (16777215 / 16777216) (16777215 / 8388608) (dec32 (fadd (fmul x (fadd (fmul x (fadd (fmul x (fadd (fmul x (fadd (fmul x (flit (18775767 / 10 ^ 10))) (flit (89893397 / 10 ^ 10)))) (flit (55826318 / 10 ^ 9)))) (flit (24015361 / 10 ^ 8)))) (flit (69315308 / 10 ^ 8)))) (flit (99999994 / 10 ^ 8))))"
    unfolding dec32_fadd [of _ "flit (99999994 / 10 ^ 8)"] polyexp_sum_one(5) [symmetric]
    by (rule in_range_fv_add_up [OF p5 polyexp_consts(6) _ _ _ polyexp_sum_fin(5)]) (simp_all add: polyexp_exact_one)
  show ?thesis using s5 by (simp add: POLYEXP_def)
qed

lemma fsub_half:
  assumes "dec32 c = Fin s m"
  shows "dec32 (fsub c (flit (1 / 2))) = fv_of_rat binary32 s (sval s m - 1 / 2)"
  by (simp add: dec32_fsub dec32_half assms fv_sub_def sval_def)

text \<open>The fractional part \<open>x - (float)ipart\<close> lies in \<open>[-0.5, 1.5]\<close>.\<close>

lemma fpart_range:
  assumes "in_range a b (dec32 c)" "- 129 \<le> a" "b \<le> 129"
    "fv_to_int (dec32 (fsub c (flit (1 / 2)))) = Some n"
    "exact binary32 H" "3 / 2 \<le> H \<or> b - of_int n \<le> H"
  shows "in_range (- (1 / 2)) H (dec32 (fsub c (i2f (word_of_int n))))"
proof -
  from assms(1) obtain s m where c: "dec32 c = Fin s m" and m: "0 \<le> m"
    and v: "a \<le> sval s m" "sval s m \<le> b" by (cases "dec32 c") auto
  define u where "u = sval s m - 1 / 2"
  have ub: "\<bar>u\<bar> \<le> 130" using v assms(2,3) by (simp add: u_def abs_le_iff)
  then have "\<bar>u\<bar> \<le> 2 ^ 23" by simp
  from trunc_near [OF this assms(4) [unfolded fsub_half [OF c] u_def [symmetric]]]
  have n: "of_int n - 1 < u" "u < of_int n + 1" by simp_all
  have "(of_int n :: rat) < of_int 131" "(of_int (- 131) :: rat) < of_int n" using n ub by simp_all
  then have nb: "n < 131" "- 131 < n" by (simp_all only: of_int_less_iff)
  then have ni: "in_int n" by (simp add: in_int_def)
  have sn: "sint (word_of_int n :: 32 word) = n" using ni by (rule sint_word_of_int32)
  have "\<bar>sint (word_of_int n :: 32 word)\<bar> < 2 ^ 24" using nb by (simp add: sn)
  from in_range_i2f [OF this]
  have ri: "in_range (of_int n) (of_int n) (dec32 (i2f (word_of_int n)))" by (simp only: sn)
  have rc: "in_range (sval s m) (sval s m) (dec32 c)" using c m by simp
  have e: "exact binary32 (- (1 / 2))" by code_simp
  have lo: "- (1 / 2) \<le> sval s m - of_int n" using n(1) by (simp add: u_def)
  have hi: "sval s m - of_int n \<le> H" using n(2) v(2) assms(6) by (auto simp: u_def)
  show ?thesis unfolding dec32_fsub by (rule in_range_fv_sub [OF rc ri lo hi e assms(5)]) simp
qed

lemma fv_to_int_ge:
  assumes "in_range (of_int A) b v" "0 \<le> A" "fv_to_int v = Some n"
  shows "A \<le> n"
proof -
  from assms(1) obtain s m where v: "v = Fin s m" and m: "0 \<le> m"
    and b: "of_int A \<le> sval s m" by (cases v) auto
  have "of_int A \<le> m" using b m assms(2) by (cases s) (simp_all add: sval_def)
  then have "A \<le> \<lfloor>m\<rfloor>" by (simp add: le_floor_iff)
  moreover have "\<not> s \<or> m = 0" using b m assms(2) by (cases s) (simp_all add: sval_def)
  ultimately show ?thesis using assms(3) by (auto simp: v)
qed

lemma fv_to_int_Some:
  "fv_to_int v = Some n \<longleftrightarrow> (\<exists>s m. v = Fin s m \<and> n = (if s then - \<lfloor>m\<rfloor> else \<lfloor>m\<rfloor>))"
  by (cases v) auto

lemma exact_3_2: "exact binary32 (3 / 2)"
  by code_simp

lemma fExp2_anatomy:
  assumes "\<not> is_nan (dec32 x)"
  shows "\<exists>n s m. dec32 (fsub (fmax (fmin x f_HI) f_LOW) (flit (1 / 2))) = Fin s m \<and>
    n = (if s then - \<lfloor>m\<rfloor> else \<lfloor>m\<rfloor>) \<and> - 127 \<le> n \<and> n \<le> 128 \<and>
    fExp2 x = Some (fmul (word_of_int ((n + 127) * 2 ^ 23))
      (POLYEXP (fsub (fmax (fmin x f_HI) f_LOW) (i2f (word_of_int n))))) \<and>
    dec32 (word_of_int ((n + 127) * 2 ^ 23)) =
      (if n = 128 then Inf False else if n = - 127 then Fin False 0 else Fin False (pow2 n)) \<and>
    in_range (- (1 / 2)) (3 / 2) (dec32 (fsub (fmax (fmin x f_HI) f_LOW) (i2f (word_of_int n))))"
proof -
  define c where "c = fmax (fmin x f_HI) f_LOW"
  from fExp2_unfold [OF assms] obtain n
    where n: "fv_to_int (dec32 (fsub c (flit (1 / 2)))) = Some n" "- 127 \<le> n" "n \<le> 128"
      and f: "fExp2 x = Some (fmul (word_of_int ((n + 127) * 2 ^ 23))
        (POLYEXP (fsub c (i2f (word_of_int n)))))"
    unfolding c_def by blast
  from n(1) obtain s m where d: "dec32 (fsub c (flit (1 / 2))) = Fin s m"
    and nn: "n = (if s then - \<lfloor>m\<rfloor> else \<lfloor>m\<rfloor>)" unfolding fv_to_int_Some by blast
  have "129 = (129::rat) \<or> \<not> fv_lt (Fin False 129) (dec32 x)" by simp
  from clamp_range [OF assms this] have rc: "in_range (- (16646143 / 131072)) 129 (dec32 c)"
    by (simp add: c_def)
  have fp: "in_range (- (1 / 2)) (3 / 2) (dec32 (fsub c (i2f (word_of_int n))))"
    by (rule fpart_range [OF rc _ _ n(1) exact_3_2]) simp_all
  show ?thesis using d nn n(2,3) f dec32_expipart [OF n(2,3)] fp unfolding c_def by blast
qed

text \<open>The polynomial is positive on the range of the fractional part.\<close>

lemma in_range_POLYEXP:
  assumes "in_range (- (1 / 2)) (3 / 2) (dec32 x)"
  shows "in_range (669 / 1024) (2897 / 1024) (dec32 (POLYEXP x))"
proof -
  from in_range_split [OF assms] have "in_range (- (1 / 2)) 0 (dec32 x) \<or> in_range 0 (3 / 2) (dec32 x)"
    by simp
  then show ?thesis
  proof
    assume "in_range (- (1 / 2)) 0 (dec32 x)"
    from in_range_weaken [OF in_range_POLYEXP_neg [OF this]] show ?thesis by simp
  next
    assume "in_range 0 (3 / 2) (dec32 x)"
    from in_range_weaken [OF in_range_POLYEXP_pos [OF this]] show ?thesis by simp
  qed
qed

lemma in_range_POLYEXP_le_one:
  assumes "in_range (- (1 / 2)) 1 (dec32 x)"
  shows "in_range (669 / 1024) (16777215 / 8388608) (dec32 (POLYEXP x))"
proof -
  from in_range_split [OF assms] have "in_range (- (1 / 2)) 0 (dec32 x) \<or> in_range 0 1 (dec32 x)"
    by simp
  then show ?thesis
  proof
    assume "in_range (- (1 / 2)) 0 (dec32 x)"
    from in_range_weaken [OF in_range_POLYEXP_neg [OF this]] show ?thesis by simp
  next
    assume "in_range 0 1 (dec32 x)"
    from in_range_weaken [OF in_range_POLYEXP_one [OF this]] show ?thesis by simp
  qed
qed

text \<open>The product of the power of two and the polynomial.\<close>

lemma pow2_128: "pow2 128 = 340282366920938463463374607431768211456"
  and pow2_127: "pow2 127 = 170141183460469231731687303715884105728"
  and pow2_126: "pow2 126 = 85070591730234615865843651857942052864"
  by code_simp+

lemma exact_big:
  "exact binary32 240673343986806330237645565852009889792"
  "exact binary32 340282346638528859811704183484516925440"
  "exact binary32 0"
  by code_simp+

lemma product_sign:
  assumes "e = Inf False \<or> (\<exists>r. e = Fin False r \<and> 0 \<le> r)" "in_range (669 / 1024) H p"
  shows "\<not> is_nan (fv_mul binary32 e p) \<and> \<not> fv_lt (fv_mul binary32 e p) (Fin False 0)"
proof -
  from assms(2) obtain t b where p: "p = Fin t b" and b: "0 \<le> b" "669 / 1024 \<le> sval t b"
    by (cases p) auto
  have t: "\<not> t" "b \<noteq> 0" using b by (auto simp: sval_def split: if_splits)
  from assms(1) show ?thesis
  proof
    assume "e = Inf False"
    then show ?thesis using t by (simp add: p)
  next
    assume "\<exists>r. e = Fin False r \<and> 0 \<le> r"
    then obtain r where e: "e = Fin False r" and r: "0 \<le> r" by blast
    have "0 \<le> rnd binary32 (r * b)" using r b(1) by (intro rnd_nonneg) simp
    then show ?thesis using t by (simp add: e p fv_round_def Let_def sval_def)
  qed
qed

lemma product_inf:
  assumes "in_range (669 / 1024) H p"
  shows "fv_mul binary32 (Inf False) p = Inf False"
proof -
  from assms obtain t b where p: "p = Fin t b" and b: "0 \<le> b" "669 / 1024 \<le> sval t b"
    by (cases p) auto
  have "\<not> t" "b \<noteq> 0" using b by (auto simp: sval_def split: if_splits)
  then show ?thesis by (simp add: p)
qed

lemma product_finite:
  assumes "n \<le> 126" "in_range (669 / 1024) (2897 / 1024) p"
  shows "is_finite (fv_mul binary32 (Fin False (pow2 n)) p)"
proof -
  have "pow2 n \<le> pow2 126" using assms(1) by (rule pow2_mono)
  then have e: "in_range 0 85070591730234615865843651857942052864 (Fin False (pow2 n))"
    using pow2_pos [of n] by (simp add: sval_def pow2_126 less_imp_le)
  have "in_range 0 240673343986806330237645565852009889792
      (fv_mul binary32 (Fin False (pow2 n)) p)"
    by (rule in_range_fv_mul [OF e assms(2)]) (simp_all add: exact_big)
  then show ?thesis by (rule in_range_finite)
qed

lemma product_finite_127:
  assumes "in_range (669 / 1024) (16777215 / 8388608) p"
  shows "is_finite (fv_mul binary32 (Fin False (pow2 127)) p)"
proof -
  have e: "in_range 170141183460469231731687303715884105728 170141183460469231731687303715884105728
      (Fin False (pow2 127))"
    by (simp add: sval_def pow2_127)
  have "in_range 0 340282346638528859811704183484516925440
      (fv_mul binary32 (Fin False (pow2 127)) p)"
    by (rule in_range_fv_mul [OF e assms]) (simp_all add: exact_big)
  then show ?thesis by (rule in_range_finite)
qed

lemma product_zero:
  assumes "in_range (669 / 1024) H p"
  shows "is_finite (fv_mul binary32 (Fin False 0) p)"
proof -
  from assms obtain t b where p: "p = Fin t b" by (cases p) auto
  show ?thesis by (simp add: p fv_round_def not_le)
qed

subsection \<open>The result of \<open>fExp2\<close>\<close>

lemma dec32_128: "dec32 (flit 128) = Fin False 128"
  by code_simp

lemma dec32_257_2: "dec32 (flit (257 / 2)) = Fin False (257 / 2)"
  by code_simp

lemma exact_fExp2:
  "exact binary32 (- (16711679 / 131072))" "exact binary32 (255 / 2)" "exact binary32 (257 / 2)"
  "exact binary32 128" "exact binary32 1"
  by code_simp+

lemma in_range_half: "in_range (1 / 2) (1 / 2) (dec32 (flit (1 / 2)))"
  by (simp add: dec32_half sval_def)

lemma fExp2_finite_below:
  assumes "\<not> is_nan (dec32 x)" "\<not> flt (flit 128) x" "fExp2 x = Some y"
  shows "is_finite (dec32 y)"
proof -
  define c where "c = fmax (fmin x f_HI) f_LOW"
  from fExp2_anatomy [OF assms(1)] obtain n s m
    where d: "dec32 (fsub c (flit (1 / 2))) = Fin s m" "n = (if s then - \<lfloor>m\<rfloor> else \<lfloor>m\<rfloor>)"
      and n: "- 127 \<le> n" "n \<le> 128"
      and f: "fExp2 x = Some (fmul (word_of_int ((n + 127) * 2 ^ 23))
        (POLYEXP (fsub c (i2f (word_of_int n)))))"
      and e: "dec32 (word_of_int ((n + 127) * 2 ^ 23)) =
        (if n = 128 then Inf False else if n = - 127 then Fin False 0 else Fin False (pow2 n))"
      and fp: "in_range (- (1 / 2)) (3 / 2) (dec32 (fsub c (i2f (word_of_int n))))"
    unfolding c_def by blast
  have tn: "fv_to_int (dec32 (fsub c (flit (1 / 2)))) = Some n" using d by simp
  have "128 = (129::rat) \<or> \<not> fv_lt (Fin False 128) (dec32 x)"
    using assms(2) by (simp add: flt_def dec32_128)
  from clamp_range [OF assms(1) this] have rc: "in_range (- (16646143 / 131072)) 128 (dec32 c)"
    by (simp add: c_def)
  have rd: "in_range (- (16711679 / 131072)) (255 / 2) (dec32 (fsub c (flit (1 / 2))))"
    unfolding dec32_fsub by (rule in_range_fv_sub [OF rc in_range_half]) (simp_all add: exact_fExp2)
  from fv_to_int_range [OF rd, of "- 127" 127] tn have n127: "n \<le> 127" by simp
  have p: "in_range (669 / 1024) (2897 / 1024) (dec32 (POLYEXP (fsub c (i2f (word_of_int n)))))"
    using fp by (rule in_range_POLYEXP)
  have y: "dec32 y = fv_mul binary32 (dec32 (word_of_int ((n + 127) * 2 ^ 23)))
      (dec32 (POLYEXP (fsub c (i2f (word_of_int n)))))"
    using assms(3) f by (auto simp: dec32_fmul)
  consider "n = - 127" | "n \<noteq> - 127" "n \<le> 126" | "n = 127" using n127 by linarith
  then show ?thesis
  proof cases
    case 1
    then show ?thesis unfolding y e using product_zero [OF p] by simp
  next
    case 2
    then show ?thesis unfolding y e using product_finite [OF _ p, of n] by simp
  next
    case 3
    have "in_range (- (1 / 2)) 1 (dec32 (fsub c (i2f (word_of_int n))))"
      by (rule fpart_range [OF rc _ _ tn]) (simp_all add: 3 exact_fExp2)
    from product_finite_127 [OF in_range_POLYEXP_le_one [OF this]]
    show ?thesis unfolding y e using 3 by simp
  qed
qed

lemma fExp2_inf_above:
  assumes "\<not> is_nan (dec32 x)" "\<not> flt x (flit (257 / 2))" "fExp2 x = Some y"
  shows "dec32 y = Inf False"
proof -
  define c where "c = fmax (fmin x f_HI) f_LOW"
  from fExp2_anatomy [OF assms(1)] obtain n s m
    where d: "dec32 (fsub c (flit (1 / 2))) = Fin s m" "n = (if s then - \<lfloor>m\<rfloor> else \<lfloor>m\<rfloor>)"
      and n: "- 127 \<le> n" "n \<le> 128"
      and f: "fExp2 x = Some (fmul (word_of_int ((n + 127) * 2 ^ 23))
        (POLYEXP (fsub c (i2f (word_of_int n)))))"
      and e: "dec32 (word_of_int ((n + 127) * 2 ^ 23)) =
        (if n = 128 then Inf False else if n = - 127 then Fin False 0 else Fin False (pow2 n))"
      and fp: "in_range (- (1 / 2)) (3 / 2) (dec32 (fsub c (i2f (word_of_int n))))"
    unfolding c_def by blast
  have tn: "fv_to_int (dec32 (fsub c (flit (1 / 2)))) = Some n" using d by simp
  have "\<not> fv_lt (dec32 x) (Fin False (257 / 2))" using assms(2) by (simp add: flt_def dec32_257_2)
  from clamp_range_lower [OF assms(1) this] have rc: "in_range (257 / 2) 129 (dec32 c)"
    by (simp add: c_def)
  have rd: "in_range (of_int 128) (257 / 2) (dec32 (fsub c (flit (1 / 2))))"
    unfolding dec32_fsub by (rule in_range_fv_sub [OF rc in_range_half]) (simp_all add: exact_fExp2)
  from fv_to_int_ge [OF rd _ tn] n(2) have n128: "n = 128" by simp
  have p: "in_range (669 / 1024) (2897 / 1024) (dec32 (POLYEXP (fsub c (i2f (word_of_int n)))))"
    using fp by (rule in_range_POLYEXP)
  have y: "dec32 y = fv_mul binary32 (dec32 (word_of_int ((n + 127) * 2 ^ 23)))
      (dec32 (POLYEXP (fsub c (i2f (word_of_int n)))))"
    using assms(3) f by (auto simp: dec32_fmul)
  show ?thesis unfolding y e using n128 product_inf [OF p] by simp
qed

lemma fExp2_sign:
  assumes "\<not> is_nan (dec32 x)"
  shows "\<exists>y. fExp2 x = Some y \<and> \<not> is_nan (dec32 y) \<and> \<not> fv_lt (dec32 y) (Fin False 0)"
proof -
  define c where "c = fmax (fmin x f_HI) f_LOW"
  from fExp2_anatomy [OF assms(1)] obtain n s m
    where d: "dec32 (fsub c (flit (1 / 2))) = Fin s m"
      and n: "- 127 \<le> n" "n \<le> 128"
      and f: "fExp2 x = Some (fmul (word_of_int ((n + 127) * 2 ^ 23))
        (POLYEXP (fsub c (i2f (word_of_int n)))))"
      and e: "dec32 (word_of_int ((n + 127) * 2 ^ 23)) =
        (if n = 128 then Inf False else if n = - 127 then Fin False 0 else Fin False (pow2 n))"
      and fp: "in_range (- (1 / 2)) (3 / 2) (dec32 (fsub c (i2f (word_of_int n))))"
    unfolding c_def by blast
  have p: "in_range (669 / 1024) (2897 / 1024) (dec32 (POLYEXP (fsub c (i2f (word_of_int n)))))"
    using fp by (rule in_range_POLYEXP)
  have "dec32 (word_of_int ((n + 127) * 2 ^ 23)) = Inf False \<or>
      (\<exists>r. dec32 (word_of_int ((n + 127) * 2 ^ 23)) = Fin False r \<and> 0 \<le> r)"
    unfolding e using pow2_pos [of n] by (simp add: less_imp_le)
  from product_sign [OF this p] show ?thesis using f by (simp add: dec32_fmul)
qed

subsection \<open>The rounding error\<close>

lemma rnd_err:
  assumes "0 \<le> m" "m < pow2 (E + 1)" "emin f \<le> E"
  shows "\<bar>rnd f m - m\<bar> \<le> pow2 (E - int (prec f))"
proof (cases "m = 0")
  case True
  then show ?thesis using pow2_pos [of "E - int (prec f)"] by (simp add: less_imp_le)
next
  case False
  then have m: "0 < m" using assms(1) by simp
  define Q where "Q = qexp f m"
  have "pow2 (bexp m) < pow2 (E + 1)" using bexp_bounds [OF m] assms(2) by linarith
  then have "bexp m \<le> E" by (simp add: pow2_less_iff)
  then have Q: "Q - 1 \<le> E - int (prec f)" using assms(3) by (simp add: Q_def qexp_def)
  have "rnd f m - m = (of_int (rhe (m / pow2 Q)) - m / pow2 Q) * pow2 Q"
    by (simp add: rnd_def Q_def dy_pow2 left_diff_distrib)
  then have "\<bar>rnd f m - m\<bar> = \<bar>of_int (rhe (m / pow2 Q)) - m / pow2 Q\<bar> * pow2 Q"
    using pow2_pos [of Q] by (simp add: abs_mult less_imp_le)
  also have "\<dots> \<le> 1 / 2 * pow2 Q"
    using rhe_err [of "m / pow2 Q"] pow2_pos [of Q] by (intro mult_right_mono) simp_all
  also have "\<dots> = pow2 (Q - 1)" by (simp add: pow2_diff)
  also have "\<dots> \<le> pow2 (E - int (prec f))" using Q by (rule pow2_mono)
  finally show ?thesis .
qed

lemma fv_of_rat_err:
  assumes "\<bar>v\<bar> < pow2 (E + 1)" "emin f \<le> E" "E < emax f" "0 < prec f"
  shows "\<exists>s m. fv_of_rat f z v = Fin s m \<and> 0 \<le> m \<and> \<bar>sval s m - v\<bar> \<le> pow2 (E - int (prec f))"
proof (cases "v = 0")
  case True
  then show ?thesis using pow2_pos [of "E - int (prec f)"] by (simp add: fv_of_rat_def less_imp_le)
next
  case False
  define r where "r = rnd f \<bar>v\<bar>"
  have r0: "0 \<le> r" unfolding r_def by (rule rnd_nonneg) simp
  have err: "\<bar>r - \<bar>v\<bar>\<bar> \<le> pow2 (E - int (prec f))"
    unfolding r_def by (rule rnd_err [OF _ assms(1,2)]) simp
  have "repr f (pow2 (E + 1))"
  proof -
    have "repr f (dy 1 (E + 1))" using assms(2,4) by (intro reprI) simp_all
    then show ?thesis by (simp add: dy_pow2)
  qed
  from rnd_le [OF _ _ this assms(4), of "\<bar>v\<bar>"] assms(1) have "r \<le> pow2 (E + 1)"
    by (simp add: r_def)
  also have "\<dots> < pow2 (emax f + 1)" using assms(3) by (simp add: pow2_less_iff)
  finally have D: "fv_of_rat f z v = Fin (v < 0) r"
    using False by (simp add: fv_of_rat_def fv_round_def Let_def r_def [symmetric] not_le)
  have "\<bar>sval (v < 0) r - v\<bar> = \<bar>r - \<bar>v\<bar>\<bar>" by (simp add: sval_def abs_if)
  then show ?thesis using D r0 err by simp
qed

subsection \<open>The range of \<open>fAsin\<close> on \<open>[-1, 1]\<close>\<close>

lemma fAsin_consts:
  "in_range 0 (1 / 32) (dec32 (flit (22372159 / 10 ^ 9)))"
  "in_range 0 (1 / 32) (dec32 (flit (303819444 / 10 ^ 10)))"
  "in_range 0 (1 / 16) (dec32 (flit (446428571 / 10 ^ 10)))"
  "in_range 0 (1 / 8) (dec32 (flit (75 / 10 ^ 3)))"
  "in_range 0 (1 / 4) (dec32 (flit (166666667 / 10 ^ 9)))"
  by code_simp+

lemma fAsin_exact:
  "exact binary32 (- 1)" "exact binary32 1"
  "exact binary32 (- (1 / 32))" "exact binary32 (1 / 32)"
  "exact binary32 (- (1 / 16))" "exact binary32 (1 / 16)"
  "exact binary32 (- (1 / 8))" "exact binary32 (1 / 8)"
  "exact binary32 (- (1 / 4))" "exact binary32 (1 / 4)"
  "exact binary32 (- (1 / 2))" "exact binary32 (1 / 2)"
  "exact binary32 (- (3 / 2))" "exact binary32 (3 / 2)"
  by code_simp+

lemma in_range_fAsin:
  assumes "in_range (- 1) 1 (dec32 x)"
  shows "in_range (- (3 / 2)) (3 / 2) (dec32 (fAsin x))"
proof -
  define x2 where "x2 = fmul x x"
  define m5 where "m5 = fmul (flit (22372159 / 10 ^ 9)) x2"
  define s4 where "s4 = fadd (flit (303819444 / 10 ^ 10)) m5"
  define m4 where "m4 = fmul s4 x2"
  define s3 where "s3 = fadd (flit (446428571 / 10 ^ 10)) m4"
  define m3 where "m3 = fmul s3 x2"
  define s2 where "s2 = fadd (flit (75 / 10 ^ 3)) m3"
  define m2 where "m2 = fmul s2 x2"
  define s1 where "s1 = fadd (flit (166666667 / 10 ^ 9)) m2"
  define m1 where "m1 = fmul s1 x2"
  have x2: "in_range (- 1) 1 (dec32 x2)"
    unfolding x2_def dec32_fmul
    by (rule in_range_fv_mul [OF assms assms]) (simp_all add: fAsin_exact)
  have m5: "in_range (- (1 / 32)) (1 / 32) (dec32 m5)"
    unfolding m5_def dec32_fmul
    by (rule in_range_fv_mul [OF fAsin_consts(1) x2]) (simp_all add: fAsin_exact)
  have s4: "in_range (- (1 / 16)) (1 / 16) (dec32 s4)"
    unfolding s4_def dec32_fadd
    by (rule in_range_fv_add [OF fAsin_consts(2) m5]) (simp_all add: fAsin_exact)
  have m4: "in_range (- (1 / 16)) (1 / 16) (dec32 m4)"
    unfolding m4_def dec32_fmul
    by (rule in_range_fv_mul [OF s4 x2]) (simp_all add: fAsin_exact)
  have s3: "in_range (- (1 / 8)) (1 / 8) (dec32 s3)"
    unfolding s3_def dec32_fadd
    by (rule in_range_fv_add [OF fAsin_consts(3) m4]) (simp_all add: fAsin_exact)
  have m3: "in_range (- (1 / 8)) (1 / 8) (dec32 m3)"
    unfolding m3_def dec32_fmul
    by (rule in_range_fv_mul [OF s3 x2]) (simp_all add: fAsin_exact)
  have s2: "in_range (- (1 / 4)) (1 / 4) (dec32 s2)"
    unfolding s2_def dec32_fadd
    by (rule in_range_fv_add [OF fAsin_consts(4) m3]) (simp_all add: fAsin_exact)
  have m2: "in_range (- (1 / 4)) (1 / 4) (dec32 m2)"
    unfolding m2_def dec32_fmul
    by (rule in_range_fv_mul [OF s2 x2]) (simp_all add: fAsin_exact)
  have s1: "in_range (- (1 / 2)) (1 / 2) (dec32 s1)"
    unfolding s1_def dec32_fadd
    by (rule in_range_fv_add [OF fAsin_consts(5) m2]) (simp_all add: fAsin_exact)
  have m1: "in_range (- (1 / 2)) (1 / 2) (dec32 m1)"
    unfolding m1_def dec32_fmul
    by (rule in_range_fv_mul [OF s1 x2]) (simp_all add: fAsin_exact)
  have r: "in_range (- (3 / 2)) (3 / 2) (dec32 (fadd x m1))"
    unfolding dec32_fadd
    by (rule in_range_fv_add [OF assms m1]) (simp_all add: fAsin_exact)
  have "fAsin x = fadd x m1"
    by (simp add: fAsin_def Let_def m1_def s1_def m2_def s2_def m3_def s3_def m4_def s4_def
        m5_def x2_def)
  then show ?thesis using r by simp
qed

subsection \<open>The sum of \<open>fAcos\<close> and \<open>fAsin\<close>\<close>

lemma dec32_pi_2: "dec32 (d2f M_PI_2) = Fin False (13176795 / 8388608)"
  by code_simp

lemma exact_pi_2: "exact binary32 (13176794 / 8388608)" "exact binary32 (13176796 / 8388608)"
  by code_simp+

lemma pow2_vals: "pow2 2 = 4" "pow2 (- 23) = 1 / 8388608"
  by code_simp+

lemma fAcos_plus_fAsin:
  assumes "in_range (- 1) 1 (dec32 x)"
  shows "in_range (13176794 / 8388608) (13176796 / 8388608) (dec32 (fadd (fAcos x) (fAsin x)))"
proof -
  from in_range_fAsin [OF assms] obtain s m where b: "dec32 (fAsin x) = Fin s m"
    and m: "0 \<le> m" and v: "- (3 / 2) \<le> sval s m" "sval s m \<le> 3 / 2"
    by (cases "dec32 (fAsin x)") auto
  define d where "d = 13176795 / 8388608 - sval s m"
  have dc: "dec32 (fAcos x) = fv_of_rat binary32 False d"
    by (simp add: fAcos_def dec32_fsub dec32_pi_2 b fv_sub_def sval_def d_def)
  have "\<bar>d\<bar> < pow2 (1 + 1)" using v by (simp add: d_def pow2_vals abs_less_iff)
  from fv_of_rat_err [OF this, of binary32 False] obtain t k
    where D: "fv_of_rat binary32 False d = Fin t k" and k: "0 \<le> k"
      and e: "\<bar>sval t k - d\<bar> \<le> pow2 (- 23)" by auto
  have rd: "in_range (sval t k) (sval t k) (dec32 (fAcos x))" using dc D k by simp
  have rb: "in_range (sval s m) (sval s m) (dec32 (fAsin x))" using b m by simp
  from e have "\<bar>sval t k - d\<bar> \<le> 1 / 8388608" by (simp only: pow2_vals)
  then have "- (1 / 8388608) \<le> sval t k - d" "sval t k - d \<le> 1 / 8388608" by linarith+
  then have lo: "13176794 / 8388608 \<le> sval t k + sval s m"
    and hi: "sval t k + sval s m \<le> 13176796 / 8388608"
    unfolding d_def by linarith+
  show ?thesis
    unfolding dec32_fadd by (rule in_range_fv_add [OF rd rb lo hi exact_pi_2]) simp
qed

subsection \<open>The range reduction of \<open>fSin\<close>\<close>

lemma sval_True [simp]: "sval True m = - m" and sval_False [simp]: "sval False m = m"
  by (simp_all add: sval_def)

lemma fv_mul_of_rat:
  assumes "0 \<le> a" "0 \<le> b"
  shows "fv_mul f (Fin s a) (Fin t b) = fv_of_rat f (s \<noteq> t) (sval s a * sval t b)"
proof -
  have "\<bar>sval s a * sval t b\<bar> = a * b" using assms by (simp add: sval_def abs_mult)
  moreover have "a * b \<noteq> 0 \<Longrightarrow> (sval s a * sval t b < 0) = (s \<noteq> t)"
    using assms by (auto simp: sval_def mult_less_0_iff zero_less_mult_iff)
  moreover have "fv_round f z 0 = Fin z 0" for z by (simp add: fv_round_def not_le)
  ultimately show ?thesis by (cases "a * b = 0") (auto simp: fv_of_rat_def)
qed

text \<open>The numbers of the format at and above \<open>2^E\<close> are multiples of \<open>2^(E - 23)\<close>.\<close>

lemma repr_grid:
  assumes "repr binary32 m" "pow2 E \<le> m"
  shows "\<exists>K. m = of_int K * pow2 (E - 23)"
proof -
  from assms(1) obtain k e where m: "m = dy k e" and k: "0 \<le> k" "k < 2 ^ 24"
    unfolding repr_def by auto
  have "(of_int k :: rat) < of_int (2 ^ 24)" using k(2) by (simp only: of_int_less_iff)
  then have "(of_int k :: rat) < pow2 24" using pow2_nat [of 24] by simp
  then have "m < pow2 24 * pow2 e" by (simp add: m dy_pow2)
  then have "pow2 E < pow2 (24 + e)" using assms(2) by (simp add: pow2_add)
  then have e: "0 \<le> e - E + 23" by (simp add: pow2_less_iff)
  have "m = of_int k * (pow2 (e - E + 23) * pow2 (E - 23))"
    by (simp add: m dy_pow2 pow2_add [symmetric])
  also have "\<dots> = of_int (k * 2 ^ nat (e - E + 23)) * pow2 (E - 23)"
    using e by (simp add: pow2_int)
  finally show ?thesis by blast
qed

lemma M_PI_val: "M_PI = Fin False (7074237752028440 / 2251799813685248)"
  and M_2PI_val: "M_2PI = Fin False (7074237752028440 / 1125899906842624)"
  by code_simp+

lemma dec32_2pi: "dec32 (d2f M_2PI) = Fin False (13176795 / 2097152)"
  and dec32_1_2pi: "dec32 (d2f M_1_2PI) = Fin False (10680707 / 67108864)"
  by code_simp+

text \<open>A float above the \<open>double\<close> \<open>M_PI\<close> is at least the float \<open>(float)M_PI\<close>.\<close>

lemma above_pi:
  assumes "dec32 y = Fin s m" "7074237752028440 / 2251799813685248 < m"
  shows "13176795 / 4194304 \<le> m"
proof -
  have r: "repr binary32 m" using valid_dec32 [of y] assms(1) by simp
  have "pow2 1 \<le> m" using assms(2) by simp
  from repr_grid [OF r this] obtain K where K: "m = of_int K * pow2 (- 22)" by auto
  have p: "pow2 (- 22) = 1 / 4194304" by code_simp
  have "(of_int 13176794 :: rat) < of_int K" using assms(2) unfolding K p by simp
  then have "13176794 < K" by (simp only: of_int_less_iff)
  then have "13176795 \<le> K" by simp
  then have "(of_int 13176795 :: rat) \<le> of_int K" by (simp only: of_int_le_iff)
  then show ?thesis unfolding K p by simp
qed

lemma exact_sin:
  "exact binary32 (13176795 / 4194304)" "exact binary32 (- (13176795 / 4194304))"
  "exact binary32 0" "exact binary32 9" "exact binary32 (- 9)"
  by code_simp+

lemma in_range_fSin_wrap:
  assumes "in_range (- 9) 9 (dec32 y)"
  shows "in_range (- (13176795 / 4194304)) (13176795 / 4194304) (dec32 (fSin_wrap y))"
proof -
  from assms obtain s m where y: "dec32 y = Fin s m" and m: "0 \<le> m"
    and v: "- 9 \<le> sval s m" "sval s m \<le> 9" by (cases "dec32 y") auto
  have t: "in_range (13176795 / 2097152) (13176795 / 2097152) (dec32 (d2f M_2PI))"
    by (simp add: dec32_2pi sval_def)
  consider (lo) "sval s m < - (7074237752028440 / 2251799813685248)"
    | (hi) "7074237752028440 / 2251799813685248 < sval s m"
    | (mid) "- (7074237752028440 / 2251799813685248) \<le> sval s m"
        "sval s m \<le> 7074237752028440 / 2251799813685248"
    by linarith
  then show ?thesis
  proof cases
    case lo
    then have s: "s" and "7074237752028440 / 2251799813685248 < m"
      using m by (auto simp: sval_def split: if_splits)
    from above_pi [OF y this(2)] have "in_range (- 9) (- (13176795 / 4194304)) (dec32 y)"
      using s v m by (simp add: y sval_def)
    then have "in_range (- (13176795 / 4194304)) (13176795 / 4194304) (dec32 (fadd y (d2f M_2PI)))"
      unfolding dec32_fadd by (rule in_range_fv_add [OF _ t]) (simp_all add: exact_sin)
    moreover have "fSin_wrap y = fadd y (d2f M_2PI)"
      using lo by (simp add: fSin_wrap_def f2d_def y M_PI_val)
    ultimately show ?thesis by simp
  next
    case hi
    then have s: "\<not> s" and "7074237752028440 / 2251799813685248 < m"
      using m by (auto simp: sval_def split: if_splits)
    from above_pi [OF y this(2)] have "in_range (13176795 / 4194304) 9 (dec32 y)"
      using s v m by (simp add: y sval_def)
    then have "in_range (- (13176795 / 4194304)) (13176795 / 4194304) (dec32 (fsub y (d2f M_2PI)))"
      unfolding dec32_fsub by (rule in_range_fv_sub [OF _ t]) (simp_all add: exact_sin)
    moreover have "fSin_wrap y = fsub y (d2f M_2PI)"
      using hi by (simp add: fSin_wrap_def f2d_def y M_PI_val)
    ultimately show ?thesis by simp
  next
    case mid
    then have "fSin_wrap y = y" by (simp add: fSin_wrap_def f2d_def y M_PI_val not_less)
    then show ?thesis using mid m by (simp add: y)
  qed
qed

lemma pow2_sin: "pow2 23 = 8388608" "pow2 26 = 67108864"
  by code_simp+

lemma in_range_fSin_mod:
  assumes "in_range (- 33554432) 33554432 (dec32 x)"
  shows "\<exists>y. fSin_mod x = Some y \<and> in_range (- 9) 9 (dec32 y)"
proof -
  from assms obtain s m where x: "dec32 x = Fin s m" and m: "0 \<le> m"
    and v: "- 33554432 \<le> sval s m" "sval s m \<le> 33554432" by (cases "dec32 x") auto
  define v where "v = sval s m"
  note vb = v [folded v_def]
  show ?thesis
  proof (cases "7074237752028440 / 1125899906842624 < v \<or> v < - (7074237752028440 / 1125899906842624)")
    case False
    then have "fSin_mod x = Some x"
      by (auto simp: fSin_mod_def f2d_def x M_2PI_val v_def)
    moreover have "in_range (- 9) 9 (dec32 x)" using False m by (simp add: x v_def)
    ultimately show ?thesis by simp
  next
    case True
    define c :: rat where "c = 10680707 / 67108864"
    define T :: rat where "T = 13176795 / 2097152"
    have q: "dec32 (fmul x (d2f M_1_2PI)) = fv_of_rat binary32 s (v * c)"
      using m by (simp add: dec32_fmul x dec32_1_2pi fv_mul_of_rat c_def v_def del: fv_mul.simps)
    have "\<bar>v * c\<bar> < pow2 (22 + 1)" using vb by (simp add: c_def pow2_sin abs_less_iff)
    from fv_of_rat_err [OF this, of binary32 s] obtain sq mq
      where qf: "fv_of_rat binary32 s (v * c) = Fin sq mq" by auto
    define k where "k = (if sq then - \<lfloor>mq\<rfloor> else \<lfloor>mq\<rfloor>)"
    have tk: "fv_to_int (fv_of_rat binary32 s (v * c)) = Some k" by (simp add: qf k_def)
    have "\<bar>v * c\<bar> \<le> 2 ^ 23" using vb by (simp add: c_def abs_le_iff)
    from trunc_near [OF this tk] have k: "of_int k - 1 < v * c" "v * c < of_int k + 1" by simp_all
    have "(of_int k :: rat) < of_int 8388608" "(of_int (- 8388608) :: rat) < of_int k"
      using k vb by (simp_all add: c_def)
    then have kb: "k < 8388608" "- 8388608 < k" by (simp_all only: of_int_less_iff)
    then have ki: "in_int k" by (simp add: in_int_def)
    have f2i: "f2i (fmul x (d2f M_1_2PI)) = Some (word_of_int k)"
      using tk ki by (simp add: f2i_def q)
    have sk: "sint (word_of_int k :: 32 word) = k" using ki by (rule sint_word_of_int32)
    have "\<bar>sint (word_of_int k :: 32 word)\<bar> < 2 ^ 24" using kb by (simp add: sk)
    from in_range_i2f [OF this] obtain si mi
      where i: "dec32 (i2f (word_of_int k)) = Fin si mi" and mi: "0 \<le> mi"
        and vi: "sval si mi = of_int k"
      unfolding sk by (cases "dec32 (i2f (word_of_int k))") auto
    have p: "dec32 (fmul (i2f (word_of_int k)) (d2f M_2PI)) = fv_of_rat binary32 si (of_int k * T)"
      using mi by (simp add: dec32_fmul i dec32_2pi fv_mul_of_rat T_def vi del: fv_mul.simps)
    have "\<bar>of_int k * T\<bar> < pow2 (25 + 1)" using k vb by (simp add: c_def T_def pow2_sin abs_less_iff)
    from fv_of_rat_err [OF this, of binary32 si] obtain sp mp
      where pf: "fv_of_rat binary32 si (of_int k * T) = Fin sp mp" and mp: "0 \<le> mp"
        and ep: "\<bar>sval sp mp - of_int k * T\<bar> \<le> pow2 (25 - int (prec binary32))" by auto
    from ep have "\<bar>sval sp mp - of_int k * T\<bar> \<le> 2" by (simp add: pow2_sin)
    then have e2: "- 2 \<le> sval sp mp - of_int k * T" "sval sp mp - of_int k * T \<le> 2" by linarith+
    have lo: "- 9 \<le> v - sval sp mp" and hi: "v - sval sp mp \<le> 9"
      using k e2 vb unfolding c_def T_def by linarith+
    have rx: "in_range v v (dec32 x)" using m by (simp add: x v_def)
    have rp: "in_range (sval sp mp) (sval sp mp)
        (dec32 (fmul (i2f (word_of_int k)) (d2f M_2PI)))" using mp by (simp add: p pf)
    have "in_range (- 9) 9 (dec32 (fsub x (fmul (i2f (word_of_int k)) (d2f M_2PI))))"
      unfolding dec32_fsub by (rule in_range_fv_sub [OF rx rp lo hi]) (simp_all add: exact_sin)
    moreover have "fSin_mod x = Some (fsub x (fmul (i2f (word_of_int k)) (d2f M_2PI)))"
      using True by (auto simp: fSin_mod_def f2d_def x M_2PI_val v_def f2i)
    ultimately show ?thesis by simp
  qed
qed

lemma in_range_fSin_reduce:
  assumes "in_range (- 33554432) 33554432 (dec32 x)"
  shows "\<exists>r. fSin_reduce x = Some r \<and>
    in_range (- (13176795 / 4194304)) (13176795 / 4194304) (dec32 r)"
proof -
  from in_range_fSin_mod [OF assms] obtain y
    where y: "fSin_mod x = Some y" "in_range (- 9) 9 (dec32 y)" by blast
  from in_range_fSin_wrap [OF y(2)] y(1) show ?thesis by (simp add: fSin_reduce_def)
qed

subsection \<open>Scaling by a power of two\<close>

lemma bexp_scale:
  assumes "0 < m"
  shows "bexp (pow2 k * m) = bexp m + k"
proof (rule bexp_unique)
  show "pow2 (bexp m + k) \<le> pow2 k * m"
    using bexp_bounds [OF assms] by (simp add: pow2_add mult.commute)
  have "pow2 k * m < pow2 k * pow2 (bexp m + 1)"
    using bexp_bounds [OF assms] by simp
  then show "pow2 k * m < pow2 (bexp m + k + 1)"
    by (simp add: pow2_add [symmetric] add.commute add.left_commute)
qed

text \<open>Above the subnormal numbers, rounding commutes with the scaling.\<close>

lemma rnd_scale:
  assumes "pow2 (emin f) \<le> m" "pow2 (emin f) \<le> pow2 k * m"
  shows "rnd f (pow2 k * m) = pow2 k * rnd f m"
proof -
  have m: "0 < m" using assms(1) pow2_pos [of "emin f"] by linarith
  have km: "0 < pow2 k * m" using m by simp
  have e1: "emin f \<le> bexp m"
  proof -
    have "pow2 (emin f) < pow2 (bexp m + 1)" using bexp_bounds [OF m] assms(1) by linarith
    then show ?thesis by (simp add: pow2_less_iff)
  qed
  have e2: "emin f \<le> bexp m + k"
  proof -
    have "pow2 (emin f) < pow2 (bexp (pow2 k * m) + 1)"
      using bexp_bounds [OF km] assms(2) by linarith
    then show ?thesis by (simp add: pow2_less_iff bexp_scale [OF m])
  qed
  have q: "qexp f (pow2 k * m) = qexp f m + k"
    using e1 e2 by (simp add: qexp_def bexp_scale [OF m])
  have d: "pow2 k * m / pow2 (qexp f m + k) = m / pow2 (qexp f m)"
    by (simp add: pow2_add)
  have "rnd f (pow2 k * m) = of_int (rhe (m / pow2 (qexp f m))) * pow2 (qexp f m + k)"
    unfolding rnd_def dy_pow2 q d ..
  also have "\<dots> = pow2 k * rnd f m"
    by (simp add: rnd_def dy_pow2 pow2_add)
  finally show ?thesis .
qed

lemma repr_pow2: "emin f - int (prec f) + 1 \<le> k \<Longrightarrow> 0 < prec f \<Longrightarrow> repr f (pow2 k)"
  using reprI [of 1 f k] by (simp add: dy_pow2)

lemma rnd_pow2: "emin f - int (prec f) + 1 \<le> k \<Longrightarrow> 0 < prec f \<Longrightarrow> rnd f (pow2 k) = pow2 k"
  by (rule rnd_exact) (rule repr_pow2)

text \<open>Rounding keeps a magnitude between two powers of two.\<close>

lemma rnd_between:
  assumes "pow2 a \<le> m" "m \<le> pow2 b" "emin f - int (prec f) + 1 \<le> a" "0 < prec f"
  shows "pow2 a \<le> rnd f m \<and> rnd f m \<le> pow2 b"
proof -
  have ab: "a \<le> b" using assms(1,2) pow2_le_iff [of a b] by linarith
  have "0 \<le> m" using assms(1) pow2_nonneg [of a] by linarith
  from rnd_le [OF this assms(2) repr_pow2 assms(4)] ab assms(3,4)
  have "rnd f m \<le> pow2 b" by simp
  moreover from rnd_ge [OF assms(1) repr_pow2 assms(4)] assms(3,4)
  have "pow2 a \<le> rnd f m" by simp
  ultimately show ?thesis by simp
qed

lemma fv_round_Fin:
  assumes "0 \<le> m" "m \<le> pow2 b" "b \<le> emax f" "emin f - int (prec f) + 1 \<le> b" "0 < prec f"
  shows "fv_round f s m = Fin s (rnd f m)"
proof -
  from rnd_le [OF assms(1,2) repr_pow2 assms(5)] assms(4,5) have "rnd f m \<le> pow2 b" by simp
  also have "\<dots> < pow2 (emax f + 1)" using assms(3) by (simp add: pow2_less_iff)
  finally show ?thesis by (simp add: fv_round_def Let_def not_le)
qed

subsection \<open>Two Babylonian steps\<close>

lemma pow2_small: "pow2 (- 2) = 1 / 4" "pow2 (- 1) = 1 / 2"
  by code_simp+

lemma div_between:
  assumes "pow2 a \<le> x" "x \<le> pow2 b" "pow2 c \<le> y" "y \<le> pow2 d"
  shows "pow2 (a - d) \<le> x / y \<and> x / y \<le> pow2 (b - c)"
proof -
  have y: "0 < y" using assms(3) pow2_pos [of c] by linarith
  have x: "0 \<le> x" using assms(1) pow2_nonneg [of a] by linarith
  have "pow2 a / pow2 d \<le> x / y"
    using assms(1,4) y x by (intro frac_le) simp_all
  moreover have "x / y \<le> pow2 b / pow2 c"
    using assms(2,3) x by (intro frac_le) simp_all
  ultimately show ?thesis by (simp add: pow2_diff)
qed

text \<open>
  The arithmetic core: \<open>m0\<close> is the seed and \<open>mx\<close> the argument; the seed has exponent
  \<open>e - 127\<close>, and the argument is zero or has an exponent about twice that.  Then no
  operation overflows or reaches the subnormal numbers, and the halvings are exact.
\<close>

lemma bab_core:
  fixes e :: int and m0 mx :: rat
  assumes e: "63 \<le> e" "e \<le> 190"
    and m0: "repr binary32 m0" "pow2 (e - 127) \<le> m0" "m0 \<le> pow2 (e - 126)"
    and mx: "mx = 0 \<or> pow2 (2 * e - 275) \<le> mx" "mx \<le> pow2 (2 * e - 251)"
  defines "A \<equiv> fv_add binary32 (Fin False m0) (fv_div binary32 (Fin False mx) (Fin False m0))"
  defines "B \<equiv> fv_mul binary32 (Fin False (1 / 2)) A"
  shows "fv_add binary32 (fv_mul binary32 (Fin False (1 / 4)) A) (fv_div binary32 (Fin False mx) A)
    = fv_mul binary32 (Fin False (1 / 2)) (fv_add binary32 B (fv_div binary32 (Fin False mx) B))"
    and "is_finite (fv_add binary32 (fv_mul binary32 (Fin False (1 / 4)) A)
      (fv_div binary32 (Fin False mx) A))"
proof -
  have mx0: "0 \<le> mx"
  proof (cases "mx = 0")
    case False
    then have "pow2 (2 * e - 275) \<le> mx" using mx(1) by simp
    then show ?thesis using pow2_nonneg [of "2 * e - 275"] by linarith
  qed simp
  have m0p: "0 < m0" using m0(2) pow2_pos [of "e - 127"] by linarith
  define Q0 where "Q0 = rnd binary32 (mx / m0)"
  define A1 where "A1 = rnd binary32 (m0 + Q0)"
  define Q1 where "Q1 = rnd binary32 (mx / A1)"
  define y where "y = pow2 (- 2) * A1 + Q1"
  define R where "R = rnd binary32 y"
  \<comment> \<open>the first quotient\<close>
  have q0: "0 \<le> mx / m0" "mx / m0 \<le> pow2 (e - 124)"
  proof -
    show "0 \<le> mx / m0" using mx0 m0p by simp
    have "mx / m0 \<le> pow2 (2 * e - 251) / pow2 (e - 127)"
      using mx(2) m0(2) mx0 by (intro frac_le) simp_all
    then show "mx / m0 \<le> pow2 (e - 124)" by (simp add: pow2_diff [symmetric])
  qed
  have fQ0: "fv_round binary32 False (mx / m0) = Fin False Q0"
    unfolding Q0_def using q0 e by (intro fv_round_Fin [of _ "e - 124"]) simp_all
  have Q0: "0 \<le> Q0" "Q0 \<le> pow2 (e - 124)"
  proof -
    show "0 \<le> Q0" unfolding Q0_def using q0(1) by (rule rnd_nonneg)
    show "Q0 \<le> pow2 (e - 124)"
      unfolding Q0_def using q0 e by (intro rnd_le repr_pow2) simp_all
  qed
  \<comment> \<open>the first sum\<close>
  have s0: "pow2 (e - 127) \<le> m0 + Q0" "m0 + Q0 \<le> pow2 (e - 123)"
  proof -
    show "pow2 (e - 127) \<le> m0 + Q0" using m0(2) Q0(1) by linarith
    have "pow2 (e - 126) \<le> pow2 (e - 124)" by (intro pow2_mono) simp
    moreover have "pow2 (e - 123) = pow2 (e - 124) * 2" using pow2_add [of "e - 124" 1] by simp
    ultimately show "m0 + Q0 \<le> pow2 (e - 123)"
      using m0(3) Q0(2) by linarith
  qed
  have A1: "pow2 (e - 127) \<le> A1" "A1 \<le> pow2 (e - 123)"
    unfolding A1_def using rnd_between [OF s0, of binary32] e by simp_all
  have A1p: "0 < A1" using A1(1) pow2_pos [of "e - 127"] by linarith
  have rA1: "rnd binary32 A1 = A1" unfolding A1_def
    by (rule rnd_exact, rule repr_rnd) (use m0p Q0(1) in simp_all)
  have fA: "A = Fin False A1"
  proof -
    have sp: "0 < m0 + Q0" using m0p Q0(1) by linarith
    moreover have "fv_round binary32 False (m0 + Q0) = Fin False A1"
      unfolding A1_def using s0 e sp
      by (intro fv_round_Fin [of _ "e - 123"]) simp_all
    ultimately show ?thesis using m0p by (simp add: A_def fQ0 fv_of_rat_def)
  qed
  \<comment> \<open>halving and quartering are exact\<close>
  have lowA: "pow2 (emin binary32) \<le> A1"
  proof -
    have "pow2 (- 126) \<le> pow2 (e - 127)" using e by (intro pow2_mono) simp
    then show ?thesis using A1(1) by simp
  qed
  have scaleA: "rnd binary32 (pow2 k * A1) = pow2 k * A1" if "- 2 \<le> k" for k
  proof -
    have "pow2 (- 126) \<le> pow2 (k + (e - 127))" using e that by (intro pow2_mono) simp
    also have "\<dots> \<le> pow2 k * A1" using A1(1) by (simp add: pow2_add)
    finally have "pow2 (emin binary32) \<le> pow2 k * A1" by simp
    from rnd_scale [OF lowA this] show ?thesis by (simp add: rA1)
  qed
  have bndA: "pow2 k * A1 \<le> pow2 (e - 123)" if "k \<le> 0" for k
  proof -
    have "pow2 k * A1 \<le> pow2 0 * A1" using that A1p by (intro mult_right_mono pow2_mono) simp_all
    then show ?thesis using A1(2) by simp
  qed
  have fquarter: "fv_mul binary32 (Fin False (1 / 4)) A = Fin False (pow2 (- 2) * A1)"
  proof -
    have sq: "rnd binary32 (pow2 (- 2) * A1) = pow2 (- 2) * A1" by (rule scaleA) simp
    have "fv_round binary32 False (pow2 (- 2) * A1) = Fin False (rnd binary32 (pow2 (- 2) * A1))"
      using bndA [of "- 2"] A1p e by (intro fv_round_Fin [of _ "e - 123"]) simp_all
    then have "fv_round binary32 False (pow2 (- 2) * A1) = Fin False (pow2 (- 2) * A1)"
      unfolding sq .
    then show ?thesis unfolding pow2_small by (simp add: fA)
  qed
  have fhalf: "B = Fin False (pow2 (- 1) * A1)"
  proof -
    have sq: "rnd binary32 (pow2 (- 1) * A1) = pow2 (- 1) * A1" by (rule scaleA) simp
    have "fv_round binary32 False (pow2 (- 1) * A1) = Fin False (rnd binary32 (pow2 (- 1) * A1))"
      using bndA [of "- 1"] A1p e by (intro fv_round_Fin [of _ "e - 123"]) simp_all
    then have "fv_round binary32 False (pow2 (- 1) * A1) = Fin False (pow2 (- 1) * A1)"
      unfolding sq .
    then show ?thesis unfolding pow2_small by (simp add: B_def fA)
  qed
  \<comment> \<open>the second quotient\<close>
  have q1: "0 \<le> mx / A1" "mx / A1 \<le> pow2 (e - 124)"
  proof -
    show "0 \<le> mx / A1" using mx0 A1p by simp
    have "mx / A1 \<le> pow2 (2 * e - 251) / pow2 (e - 127)"
      using mx(2) A1(1) mx0 by (intro frac_le) simp_all
    then show "mx / A1 \<le> pow2 (e - 124)" by (simp add: pow2_diff [symmetric])
  qed
  have fQ1: "fv_div binary32 (Fin False mx) A = Fin False Q1"
  proof -
    have "fv_round binary32 False (mx / A1) = Fin False Q1"
      unfolding Q1_def using q1 e by (intro fv_round_Fin [of _ "e - 124"]) simp_all
    then show ?thesis using A1p by (simp add: fA)
  qed
  have Q1: "0 \<le> Q1" "Q1 \<le> pow2 (e - 124)"
  proof -
    show "0 \<le> Q1" unfolding Q1_def using q1(1) by (rule rnd_nonneg)
    show "Q1 \<le> pow2 (e - 124)"
      unfolding Q1_def using q1 e by (intro rnd_le repr_pow2) simp_all
  qed
  have dQ1: "rnd binary32 (2 * (mx / A1)) = 2 * Q1"
  proof (cases "mx = 0")
    case True
    then show ?thesis by (simp add: Q1_def)
  next
    case False
    then have "pow2 (2 * e - 275) \<le> mx" using mx(1) by simp
    from div_between [OF this mx(2) A1] have "pow2 (e - 152) \<le> mx / A1" by simp
    moreover have "pow2 (- 126) \<le> pow2 (e - 152)" using e by (intro pow2_mono) simp
    ultimately have l: "pow2 (emin binary32) \<le> mx / A1" by simp
    then have "pow2 (emin binary32) \<le> 2 * (mx / A1)" using q1(1) by simp
    from rnd_scale [OF l, of 1] this show ?thesis by (simp add: Q1_def)
  qed
  have fQ1': "fv_div binary32 (Fin False mx) B = Fin False (2 * Q1)"
  proof -
    have eq: "mx / (pow2 (- 1) * A1) = 2 * (mx / A1)" by (simp add: pow2_small)
    have "2 * (mx / A1) \<le> 2 * pow2 (e - 124)" using q1(2) by simp
    then have "2 * (mx / A1) \<le> pow2 (e - 123)" using pow2_add [of 1 "e - 124"] by simp
    moreover have "0 \<le> 2 * (mx / A1)" using q1(1) by simp
    ultimately have "fv_round binary32 False (2 * (mx / A1)) =
        Fin False (rnd binary32 (2 * (mx / A1)))"
      using e by (intro fv_round_Fin [of _ "e - 123"]) simp_all
    then have "fv_round binary32 False (mx / (pow2 (- 1) * A1)) = Fin False (2 * Q1)"
      unfolding dQ1 eq .
    moreover have "pow2 (- 1) * A1 \<noteq> 0" using A1p by simp
    ultimately show ?thesis unfolding fhalf by (simp del: times_divide_eq_right)
  qed
  \<comment> \<open>the second sum\<close>
  have y: "pow2 (e - 129) \<le> y" "y \<le> pow2 (e - 123)"
  proof -
    have "pow2 (e - 129) = pow2 (- 2) * pow2 (e - 127)" by (simp add: pow2_add [symmetric])
    also have "\<dots> \<le> pow2 (- 2) * A1" using A1(1) by simp
    finally show "pow2 (e - 129) \<le> y" using Q1(1) by (simp add: y_def)
    have "pow2 (- 2) * A1 \<le> pow2 (- 2) * pow2 (e - 123)" using A1(2) by simp
    then have "pow2 (- 2) * A1 \<le> pow2 (e - 125)" by (simp add: pow2_add [symmetric])
    moreover have "pow2 (e - 125) \<le> pow2 (e - 124)" by (intro pow2_mono) simp
    moreover have "pow2 (e - 123) = pow2 (e - 124) * 2" using pow2_add [of "e - 124" 1] by simp
    ultimately show "y \<le> pow2 (e - 123)"
      using Q1(2) unfolding y_def by linarith
  qed
  have yp: "0 < y" using y(1) pow2_pos [of "e - 129"] by linarith
  have R: "pow2 (e - 129) \<le> R" "R \<le> pow2 (e - 123)"
    unfolding R_def using rnd_between [OF y, of binary32] e by simp_all
  have Rp: "0 < R" using R(1) pow2_pos [of "e - 129"] by linarith
  have rR: "rnd binary32 R = R" unfolding R_def
    by (rule rnd_exact, rule repr_rnd) (use yp in simp_all)
  have code: "fv_add binary32 (fv_mul binary32 (Fin False (1 / 4)) A)
      (fv_div binary32 (Fin False mx) A) = Fin False R"
  proof -
    have "fv_round binary32 False (pow2 (- 2) * A1 + Q1) = Fin False R"
      unfolding R_def y_def [symmetric] using y yp e
      by (intro fv_round_Fin [of _ "e - 123"]) simp_all
    moreover have "0 < pow2 (- 2) * A1 + Q1" using yp unfolding y_def .
    ultimately show ?thesis unfolding fquarter fQ1 by (simp add: fv_of_rat_def)
  qed
  have ly: "pow2 (emin binary32) \<le> y"
  proof -
    have "pow2 (- 126) \<le> pow2 (e - 129)" using e by (intro pow2_mono) simp
    then show ?thesis using y(1) by simp
  qed
  have dy2: "rnd binary32 (2 * y) = 2 * R"
  proof -
    have "pow2 (emin binary32) \<le> 2 * y" using ly yp by simp
    from rnd_scale [OF ly, of 1] this show ?thesis by (simp add: R_def)
  qed
  have sum2: "fv_add binary32 B (fv_div binary32 (Fin False mx) B) = Fin False (2 * R)"
  proof -
    have eq: "pow2 (- 1) * A1 + 2 * Q1 = 2 * y" by (simp add: y_def pow2_small)
    have "2 * y \<le> 2 * pow2 (e - 123)" using y(2) by simp
    then have "2 * y \<le> pow2 (e - 122)" using pow2_add [of 1 "e - 123"] by simp
    then have "fv_round binary32 False (2 * y) = Fin False (rnd binary32 (2 * y))"
      using yp e by (intro fv_round_Fin [of _ "e - 122"]) simp_all
    then have "fv_round binary32 False (pow2 (- 1) * A1 + 2 * Q1) = Fin False (2 * R)"
      unfolding dy2 eq .
    moreover have "0 < pow2 (- 1) * A1 + 2 * Q1" unfolding eq using yp by simp
    moreover note fQ1' [unfolded fhalf]
    ultimately show ?thesis unfolding fhalf by (simp add: fv_of_rat_def del: fv_div.simps)
  qed
  have spec: "fv_mul binary32 (Fin False (1 / 2))
      (fv_add binary32 B (fv_div binary32 (Fin False mx) B)) = Fin False R"
  proof -
    have "fv_round binary32 False R = Fin False (rnd binary32 R)"
      using R Rp e by (intro fv_round_Fin [of _ "e - 123"]) simp_all
    then show ?thesis unfolding sum2 rR by simp
  qed
  show "fv_add binary32 (fv_mul binary32 (Fin False (1 / 4)) A) (fv_div binary32 (Fin False mx) A)
    = fv_mul binary32 (Fin False (1 / 2)) (fv_add binary32 B (fv_div binary32 (Fin False mx) B))"
    unfolding code spec ..
  show "is_finite (fv_add binary32 (fv_mul binary32 (Fin False (1 / 4)) A)
      (fv_div binary32 (Fin False mx) A))"
    unfolding code by simp
qed

subsection \<open>The seed of the square root\<close>

text \<open>The three fields of a word, and the datum they decode to.\<close>

lemma dec32_fields:
  fixes w :: "32 word"
  obtains b e m where "uint w = b * 2147483648 + e * 8388608 + m"
    "b = 0 \<or> b = 1" "0 \<le> e" "e < 256" "0 \<le> m" "m < 8388608"
    "dec32 w = (if e = 255 then (if m = 0 then Inf (b = 1) else NaN)
                else if e = 0 then Fin (b = 1) (dy m (- 149))
                else Fin (b = 1) (dy (2 ^ 23 + m) (e - 150)))"
proof -
  define u where "u = uint w"
  define q where "q = u div 2 ^ 23"
  define m where "m = u mod 2 ^ 23"
  define e where "e = q mod 2 ^ 8"
  define b where "b = q div 2 ^ 8"
  have u: "0 \<le> u" "u < 4294967296" using uint_bounded [of w] by (simp_all add: u_def)
  have m: "0 \<le> m" "m < 8388608" by (simp_all add: m_def)
  have e: "0 \<le> e" "e < 256" by (simp_all add: e_def)
  have uq: "u = q * 8388608 + m" by (simp add: q_def m_def)
  have qb: "q = b * 256 + e" by (simp add: b_def e_def)
  have ub: "u = b * 2147483648 + e * 8388608 + m" unfolding uq qb by simp
  have b: "b = 0 \<or> b = 1" using ub u m e by linarith
  have s: "(2 ^ 31 \<le> u) = (b = 1)" using ub b m e by auto
  have "dec32 w = (if e = 255 then (if m = 0 then Inf (b = 1) else NaN)
                else if e = 0 then Fin (b = 1) (dy m (- 149))
                else Fin (b = 1) (dy (2 ^ 23 + m) (e - 150)))"
    unfolding dec32_uint Let_def u_def [symmetric] s q_def [symmetric] e_def [symmetric]
      m_def [symmetric] ..
  with ub b e m show ?thesis unfolding u_def by (rule that)
qed

lemma dec32_zero: "dec32 (flit 0) = Fin False 0"
  by code_simp

text \<open>A float that is not below zero is a positive finite number, \<open>+\<infinity>\<close> or \<open>-0\<close>.\<close>

lemma nonneg_cases:
  assumes "\<not> is_nan (dec32 x)" "\<not> flt x (flit 0)"
  shows "uint x < 2139095040 \<or> x = 0x7F800000 \<or> x = 0x80000000"
proof -
  obtain b e m where f: "uint x = b * 2147483648 + e * 8388608 + m"
    "b = 0 \<or> b = 1" "0 \<le> e" "e < 256" "0 \<le> m" "m < 8388608"
    "dec32 x = (if e = 255 then (if m = 0 then Inf (b = 1) else NaN)
                else if e = 0 then Fin (b = 1) (dy m (- 149))
                else Fin (b = 1) (dy (2 ^ 23 + m) (e - 150)))"
    by (rule dec32_fields)
  have x: "x = word_of_int (uint x)" by simp
  show ?thesis
  proof (cases "e = 255")
    case True
    with assms f(7) have m0: "m = 0" by (auto split: if_splits)
    with assms(2) f(7) True have "b \<noteq> 1" by (auto simp: flt_def dec32_zero)
    with f(2) have "b = 0" by simp
    with f(1) True m0 have "uint x = 2139095040" by simp
    with x have "x = word_of_int 2139095040" by simp
    then show ?thesis by simp
  next
    case False
    show ?thesis
    proof (cases "b = 1")
      case b: True
      have pos: "0 < pow2 k" for k by simp
      have neg: "0 < of_int j * pow2 k" if "0 < j" for j :: int and k
        using that by simp
      have "m = 0 \<and> e = 0"
      proof (rule ccontr)
        assume "\<not> (m = 0 \<and> e = 0)"
        then consider "e = 0" "0 < m" | "0 < e" using f(3,5) by linarith
        then show False
        proof cases
          case 1
          with assms(2) f(7) False b neg [of m "- 149"] show False
            by (simp add: flt_def dec32_zero dy_pow2)
        next
          case 2
          have "0 < 2 ^ 23 + m" using f(5) by simp
          from neg [OF this, of "e - 150"] assms(2) f(7) False b 2 show False
            by (simp add: flt_def dec32_zero dy_pow2)
        qed
      qed
      with f(1) b have "uint x = 2147483648" by simp
      with x have "x = word_of_int 2147483648" by simp
      then show ?thesis by simp
    next
      case b: False
      with f(2) have "b = 0" by simp
      with f(1,4,6) False have "uint x < 2139095040" by linarith
      then show ?thesis by simp
    qed
  qed
qed

text \<open>The magnitude of a positive finite float, from its exponent field.\<close>

lemma dec32_pos_bounds:
  fixes w :: "32 word"
  assumes "uint w = E * 8388608 + f" "0 \<le> E" "E \<le> 254" "0 \<le> f" "f < 8388608"
  obtains m where "dec32 w = Fin False m" "m = 0 \<or> pow2 (E - 149) \<le> m"
    "1 \<le> E \<Longrightarrow> pow2 (E - 127) \<le> m" "1 \<le> E \<Longrightarrow> m \<le> pow2 (E - 126)"
    "E = 0 \<Longrightarrow> m \<le> pow2 (- 126)"
proof -
  have u: "uint w div 2 ^ 23 mod 2 ^ 8 = E" "uint w mod 2 ^ 23 = f"
    "(2 ^ 31 \<le> uint w) = False"
    using assms by simp_all
  have p23: "pow2 23 = 8388608" using pow2_nat [of 23] by simp
  have p24: "pow2 24 = 16777216" using pow2_nat [of 24] by simp
  show ?thesis
  proof (cases "E = 0")
    case True
    have d: "dec32 w = Fin False (dy f (- 149))"
      unfolding dec32_uint Let_def u using True by simp
    have 1: "dy f (- 149) = 0 \<or> pow2 (E - 149) \<le> dy f (- 149)"
    proof (cases "f = 0")
      case f: False
      then have "1 \<le> f" using assms(4) by simp
      then have "(1 :: rat) \<le> of_int f" by simp
      then have "1 * pow2 (- 149) \<le> of_int f * pow2 (- 149)"
        by (intro mult_right_mono) simp_all
      then show ?thesis using True by (simp add: dy_pow2)
    qed (simp add: dy_pow2)
    have "(of_int f :: rat) \<le> pow2 23" unfolding p23 using assms(5) by simp
    then have "of_int f * pow2 (- 149) \<le> pow2 23 * pow2 (- 149)"
      by (intro mult_right_mono) simp_all
    then have 2: "dy f (- 149) \<le> pow2 (- 126)" by (simp add: dy_pow2 pow2_add [symmetric])
    from d 1 _ _ 2 show ?thesis by (rule that) (use True in simp_all)
  next
    case False
    then have E: "1 \<le> E" using assms(2) by simp
    define m where "m = dy (2 ^ 23 + f) (E - 150)"
    have d: "dec32 w = Fin False m"
      unfolding dec32_uint Let_def u m_def using False assms(3) by simp
    have "pow2 23 \<le> (of_int (2 ^ 23 + f) :: rat)" unfolding p23 using assms(4) by simp
    then have "pow2 23 * pow2 (E - 150) \<le> of_int (2 ^ 23 + f) * pow2 (E - 150)"
      by (intro mult_right_mono) simp_all
    then have lo: "pow2 (E - 127) \<le> m" by (simp add: m_def dy_pow2 pow2_add [symmetric])
    have "(of_int (2 ^ 23 + f) :: rat) \<le> pow2 24" unfolding p24 using assms(5) by simp
    then have "of_int (2 ^ 23 + f) * pow2 (E - 150) \<le> pow2 24 * pow2 (E - 150)"
      by (intro mult_right_mono) simp_all
    then have hi: "m \<le> pow2 (E - 126)" by (simp add: m_def dy_pow2 pow2_add [symmetric])
    have "pow2 (E - 149) \<le> pow2 (E - 127)" by (intro pow2_mono) simp
    with lo have 1: "m = 0 \<or> pow2 (E - 149) \<le> m" by simp
    from d 1 lo hi show ?thesis by (rule that) (use False in simp_all)
  qed
qed

lemma sint_ishr1: "uint x < 2 ^ 31 \<Longrightarrow> sint (ishr x 1) = uint x div 2"
  by (simp add: ishr_def sint_signed_drop_bit_eq sint_eq_uint32 drop_bit_eq_div)

lemma sint_consts: "sint (2 ^ 29 :: 32 word) = 536870912" "sint (2 ^ 22 :: 32 word) = 4194304"
  by simp_all

lemma uint_of_sint: 
  fixes w :: "32 word"
  assumes "0 \<le> sint w"
  shows "uint w = sint w"
proof -
  have "sint w < 2 ^ 31" using sint_lt [of w] by simp
  then have "take_bit 32 (sint w) = sint w" using assms by (simp add: take_bit_int_eq_self)
  moreover have "uint w = take_bit 32 (sint w)" using uint_sint [of w] by simp
  ultimately show ?thesis by simp
qed

text \<open>
  The seed of a positive finite \<open>x\<close>: no overflow in the integer arithmetic, the seed is
  a normal number with biased exponent \<open>e\<close>, and \<open>x\<close> lies between \<open>2\<^sup>2\<^sup>e\<^sup>-\<^sup>2\<^sup>7\<^sup>5\<close> and
  \<open>2\<^sup>2\<^sup>e\<^sup>-\<^sup>2\<^sup>5\<^sup>1\<close> or is zero.
\<close>

lemma seed_pos:
  assumes "uint x < 2139095040"
  obtains a0 e m0 mx where "bab2x_seed x = Some a0" "dec32 a0 = Fin False m0"
    "dec32 x = Fin False mx" "63 \<le> e" "e \<le> 190"
    "pow2 (e - 127) \<le> m0" "m0 \<le> pow2 (e - 126)"
    "mx = 0 \<or> pow2 (2 * e - 275) \<le> mx" "mx \<le> pow2 (2 * e - 251)"
proof -
  define u where "u = uint x"
  define h where "h = u div 2"
  define r where "r = u mod 2"
  have u: "0 \<le> u" "u < 2139095040" using assms by (simp_all add: u_def)
  have uh: "u = 2 * h + r" "0 \<le> r" "r < 2" by (simp_all add: h_def r_def)
  have h: "0 \<le> h" "h < 1069547520" using u uh by linarith+
  have sh: "sint (ishr x 1) = h" unfolding h_def u_def using assms by (intro sint_ishr1) simp
  define t where "t = 2 ^ 29 + ishr x 1"
  have "in_int (sint (2 ^ 29 :: 32 word) + sint (ishr x 1))"
    unfolding sh sint_consts using h by (simp add: in_int_def)
  from iadd_Some [OF this] have t: "iadd (2 ^ 29) (ishr x 1) = Some t" "sint t = 536870912 + h"
    unfolding t_def sh sint_consts by simp_all
  define a0 where "a0 = t - 2 ^ 22"
  have "in_int (sint t - sint (2 ^ 22 :: 32 word))"
    unfolding t sint_consts using h by (simp add: in_int_def)
  from isub_Some [OF this] have a0: "isub t (2 ^ 22) = Some a0" "sint a0 = 536870912 + h - 4194304"
    unfolding a0_def t sint_consts by simp_all
  have seed: "bab2x_seed x = Some a0" unfolding bab2x_seed_def t(1) using a0(1) by simp
  define s where "s = uint a0"
  have s: "s = 532676608 + h" unfolding s_def using uint_of_sint [of a0] a0(2) h by simp
  define e where "e = s div 8388608"
  define f0 where "f0 = s mod 8388608"
  have sf: "s = e * 8388608 + f0" "0 \<le> f0" "f0 < 8388608" by (simp_all add: e_def f0_def)
  have e: "63 \<le> e" "e \<le> 190" using s sf h by linarith+
  define ex where "ex = u div 8388608"
  define fx where "fx = u mod 8388608"
  have uf: "u = ex * 8388608 + fx" "0 \<le> fx" "fx < 8388608" by (simp_all add: ex_def fx_def)
  have ex: "0 \<le> ex" "ex \<le> 254" "2 * e - 127 \<le> ex" "ex \<le> 2 * e - 126"
    using uf u uh s sf by linarith+
  obtain m0 where m0: "dec32 a0 = Fin False m0" "pow2 (e - 127) \<le> m0" "m0 \<le> pow2 (e - 126)"
  proof (rule dec32_pos_bounds [of a0 e f0])
    show "uint a0 = e * 8388608 + f0" using sf(1) by (simp add: s_def)
  qed (use e sf that in simp_all)
  obtain mx where mx: "dec32 x = Fin False mx" "mx = 0 \<or> pow2 (ex - 149) \<le> mx"
    "1 \<le> ex \<Longrightarrow> pow2 (ex - 127) \<le> mx" "1 \<le> ex \<Longrightarrow> mx \<le> pow2 (ex - 126)"
    "ex = 0 \<Longrightarrow> mx \<le> pow2 (- 126)"
  proof (rule dec32_pos_bounds [of x ex fx])
    show "uint x = ex * 8388608 + fx" using uf(1) by (simp add: u_def)
  qed (use ex uf in simp_all)
  have lo: "mx = 0 \<or> pow2 (2 * e - 275) \<le> mx"
  proof (cases "ex = 0")
    case True
    then have "pow2 (2 * e - 275) \<le> pow2 (ex - 149)" using ex by (intro pow2_mono) simp
    then show ?thesis using mx(2) by auto
  next
    case False
    then have 1: "1 \<le> ex" using ex(1) by simp
    have "pow2 (2 * e - 275) \<le> pow2 (ex - 127)" using ex by (intro pow2_mono) simp
    then show ?thesis using mx(3) [OF 1] by simp
  qed
  have hi: "mx \<le> pow2 (2 * e - 251)"
  proof (cases "ex = 0")
    case True
    have "pow2 (- 126) \<le> pow2 (2 * e - 251)" using e by (intro pow2_mono) simp
    then show ?thesis using mx(5) [OF True] by simp
  next
    case False
    then have 1: "1 \<le> ex" using ex(1) by simp
    have "pow2 (ex - 126) \<le> pow2 (2 * e - 251)" using ex by (intro pow2_mono) simp
    then show ?thesis using mx(4) [OF 1] by simp
  qed
  from seed m0(1) mx(1) e m0(2,3) lo hi show ?thesis by (rule that)
qed

lemma dec32_quarter: "dec32 (flit (25 / 10 ^ 2)) = Fin False (1 / 4)"
  and dec32_5_10: "dec32 (flit (5 / 10)) = Fin False (1 / 2)"
  by code_simp+

lemma bab2xSqrt_seed:
  "bab2xSqrt x = do { a0 \<leftarrow> bab2x_seed x;
     Some (fadd (fmul (flit (25 / 10 ^ 2)) (fadd a0 (fdiv x a0))) (fdiv x (fadd a0 (fdiv x a0)))) }"
  by (simp add: bab2xSqrt_def bab2x_seed_def Let_def)

text \<open>The positive finite arguments.\<close>

lemma bab2xSqrt_pos:
  assumes "uint x < 2139095040"
  shows "\<exists>r. bab2xSqrt x = Some r \<and> bab2x_spec x = Some r \<and> is_finite (dec32 r)"
proof -
  obtain a0 e m0 mx where s: "bab2x_seed x = Some a0" "dec32 a0 = Fin False m0"
    "dec32 x = Fin False mx" "63 \<le> e" "e \<le> 190"
    "pow2 (e - 127) \<le> m0" "m0 \<le> pow2 (e - 126)"
    "mx = 0 \<or> pow2 (2 * e - 275) \<le> mx" "mx \<le> pow2 (2 * e - 251)"
    using assms by (rule seed_pos)
  have r: "repr binary32 m0" using valid_dec32 [of a0] unfolding s(2) by simp
  define a where "a = fadd a0 (fdiv x a0)"
  define b where "b = fmul (flit (5 / 10)) a"
  define A where "A = fv_add binary32 (Fin False m0) (fv_div binary32 (Fin False mx) (Fin False m0))"
  define B where "B = fv_mul binary32 (Fin False (1 / 2)) A"
  have da: "dec32 a = A" unfolding a_def A_def dec32_fadd dec32_fdiv s(2,3) ..
  have db: "dec32 b = B" unfolding b_def B_def dec32_fmul dec32_5_10 da ..
  note core = bab_core [OF s(4,5) r s(6-9), folded A_def, folded B_def]
  define L where "L = fv_add binary32 (fv_mul binary32 (Fin False (1 / 4)) A)
    (fv_div binary32 (Fin False mx) A)"
  have 1: "fadd (fmul (flit (25 / 10 ^ 2)) a) (fdiv x a) = enc32 L"
    unfolding fadd_def dec32_fmul dec32_fdiv dec32_quarter da s(3) L_def ..
  have 2: "fmul (flit (5 / 10)) (fadd b (fdiv x b)) = enc32 L"
    unfolding fmul_def dec32_fadd dec32_fdiv dec32_5_10 db s(3) L_def core(1) ..
  have "dec32 (fadd (fmul (flit (25 / 10 ^ 2)) a) (fdiv x a)) = L"
    unfolding dec32_fadd dec32_fmul dec32_fdiv dec32_quarter da s(3) L_def ..
  then have 3: "dec32 (enc32 L) = L" unfolding 1 .
  have "bab2xSqrt x = Some (enc32 L)"
    unfolding bab2xSqrt_seed s(1) using 1 by (simp add: a_def)
  moreover have "bab2x_spec x = Some (enc32 L)"
    unfolding bab2x_spec_def s(1) babylonian_def using 2 by (simp add: a_def b_def)
  moreover have "is_finite L" unfolding L_def by (rule core(2))
  then have "is_finite (dec32 (enc32 L))" unfolding 3 .
  ultimately show ?thesis by blast
qed

text \<open>The two other arguments that are not below zero, by evaluation.\<close>

lemma bab2xSqrt_neg_zero:
  "bab2xSqrt 0x80000000 = Some 0xDEC00000" "bab2x_spec 0x80000000 = Some 0xDEC00000"
  "is_finite (dec32 0xDEC00000)"
  by code_simp+

lemma bab2xSqrt_inf:
  "bab2xSqrt 0x7F800000 = Some 0x7FC00000" "bab2x_spec 0x7F800000 = Some 0x7FC00000"
  "\<not> is_finite (dec32 0x7F800000)"
  by code_simp+

section \<open>The claims\<close>

subsection \<open>C1: the result of \<open>fExp2\<close>\<close>

text \<open>
  Claim C1 says that for every finite \<open>x\<close> the result of \<open>fExp2\<close> is finite, the clamp
  keeping the exponent trick from a non-finite or wrapped result.  The clamp keeps the
  biased exponent \<open>n + 127\<close> within 0 and 255, and 255 is the exponent field of the
  infinities: at the upper bound \<open>f_HI = 129\<close> the result is \<open>+infinity\<close>.
\<close>

theorem fExp2_at_f_HI_counterexample:
  "is_finite (dec32 (flit 129)) \<and> fExp2 (flit 129) = Some 0x7F800000 \<and>
   dec32 0x7F800000 = Inf False"
  by code_simp

text \<open>
  Claim C1, amended: for every \<open>x\<close> that is not a NaN (the infinities included),
  \<open>fExp2(x)\<close> is defined (no conversion or shift is undefined, no error is signalled),
  is not a NaN and is not negative; it is finite whenever \<open>x \<le> 128\<close>, and it is
  \<open>+infinity\<close> whenever \<open>x \<ge> 128.5\<close>, in particular wherever the upper clamp acts.
\<close>

theorem fExp2_result:
  assumes "\<not> is_nan (dec32 x)"
  shows "\<exists>y. fExp2 x = Some y \<and> \<not> is_nan (dec32 y) \<and> \<not> fv_lt (dec32 y) (Fin False 0) \<and>
    (\<not> flt (flit 128) x \<longrightarrow> is_finite (dec32 y)) \<and>
    (\<not> flt x (flit (257 / 2)) \<longrightarrow> dec32 y = Inf False)"
  using fExp2_sign [OF assms] fExp2_finite_below [OF assms] fExp2_inf_above [OF assms] by blast

lemma fExp2_witness_facts:
  "\<not> is_nan (dec32 (flit 1))" "\<not> flt (flit 128) (flit 1)"
  "\<not> is_nan (dec32 (flit 200))" "\<not> flt (flit 200) (flit (257 / 2))"
  by code_simp+

theorem fExp2_result_witness:
  "(\<exists>y. fExp2 (flit 1) = Some y \<and> is_finite (dec32 y)) \<and>
   (\<exists>y. fExp2 (flit 200) = Some y \<and> dec32 y = Inf False)"
  using fExp2_result [of "flit 1"] fExp2_result [of "flit 200"] fExp2_witness_facts by blast

subsection \<open>C2: the inverse trigonometric polynomials are not odd\<close>

lemma fAsin_half: "fAsin (flit (1 / 2)) = 0x3F0C14CA"
  by code_simp

lemma fAsin_neg_half: "fAsin (fneg (flit (1 / 2))) = 0xBEE7D66B"
  by code_simp

lemma fAtan_half: "fAtan (flit (1 / 2)) = 0x3ED040C2"
  by code_simp

lemma fAtan_neg_half: "fAtan (fneg (flit (1 / 2))) = 0xBF17DF9F"
  by code_simp

lemma fneg_vals: "fneg 0x3F0C14CA = 0xBF0C14CA" "fneg 0x3ED040C2 = 0xBED040C2"
  by (simp_all add: fneg_def)

text \<open>
  Claim C2 says that \<open>fAsin\<close> and \<open>fAtan\<close> are odd polynomials of degree 9, so that
  \<open>fAsin(-x) = -fAsin(x)\<close> and \<open>fAtan(-x) = -fAtan(x)\<close> for every \<open>x\<close>.  The source
  adds to \<open>x\<close> a polynomial in \<open>x2 = x * x\<close> whose every term carries a factor \<open>x2\<close>: the
  correction is an even function of \<open>x\<close> (the factor \<open>x\<close> of the series is missing).  At
  \<open>x = 0.5\<close> the code returns \<open>fAsin(0.5) = 0.5471922\<close> and \<open>fAsin(-0.5) = -0.4528078\<close>,
  \<open>fAtan(0.5) = 0.4067441\<close> and \<open>fAtan(-0.5) = -0.5932559\<close>: neither function is odd.
\<close>

theorem fAsin_fAtan_not_odd:
  "fAsin (fneg (flit (1 / 2))) \<noteq> fneg (fAsin (flit (1 / 2))) \<and>
   fAtan (fneg (flit (1 / 2))) \<noteq> fneg (fAtan (flit (1 / 2)))"
  by (simp add: fAsin_half fAsin_neg_half fAtan_half fAtan_neg_half fneg_vals)

subsection \<open>C3: the integer and the fractional part in \<open>fExp2\<close>\<close>

text \<open>
  Claim C3 says that the integer part is \<open>n = floor(x' - 0.5)\<close>.  The source converts
  with \<open>(int)\<close>, which truncates towards zero: for \<open>x = -1\<close> the clamp leaves \<open>x' = -1\<close>,
  \<open>x' - 0.5f\<close> is \<open>-1.5\<close>, and \<open>ipart\<close> is \<open>-1\<close>, whereas \<open>floor(-1.5) = -2\<close>.
\<close>

theorem fExp2_ipart_counterexample:
  "fmax (fmin (flit (- 1)) f_HI) f_LOW = flit (- 1) \<and>
   dec32 (fsub (flit (- 1)) (flit (1 / 2))) = Fin True (3 / 2) \<and>
   f2i (fsub (flit (- 1)) (flit (1 / 2))) = Some (- 1) \<and>
   \<lfloor>sval True (3 / 2)\<rfloor> = - 2"
  by code_simp

text \<open>
  Claim C3, amended: for every \<open>x\<close> that is not a NaN, with \<open>x'\<close> the clamped argument,
  the float \<open>x' - 0.5f\<close> is finite, of sign \<open>s\<close> and magnitude \<open>m\<close>, and the integer part
  \<open>n\<close> is its truncation towards zero (\<open>floor m\<close>, negated when \<open>s\<close>), between -127 and
  128; the fractional part is the float \<open>f = x' - (float)n\<close>, between -0.5 and 1.5; the
  pattern \<open>(n + 127) << 23\<close> is the float \<open>2^n\<close>, except that it is zero for \<open>n = -127\<close>
  and \<open>+infinity\<close> for \<open>n = 128\<close>; and the result is the float product of that pattern
  with \<open>POLYEXP(f)\<close>, a polynomial of degree 5 in Horner form.
\<close>

theorem fExp2_split:
  assumes "\<not> is_nan (dec32 x)"
  shows "\<exists>n s m. dec32 (fsub (fmax (fmin x f_HI) f_LOW) (flit (1 / 2))) = Fin s m \<and>
    n = (if s then - \<lfloor>m\<rfloor> else \<lfloor>m\<rfloor>) \<and> - 127 \<le> n \<and> n \<le> 128 \<and>
    fExp2 x = Some (fmul (word_of_int ((n + 127) * 2 ^ 23))
      (POLYEXP (fsub (fmax (fmin x f_HI) f_LOW) (i2f (word_of_int n))))) \<and>
    dec32 (word_of_int ((n + 127) * 2 ^ 23)) =
      (if n = 128 then Inf False else if n = - 127 then Fin False 0 else Fin False (pow2 n)) \<and>
    in_range (- (1 / 2)) (3 / 2) (dec32 (fsub (fmax (fmin x f_HI) f_LOW) (i2f (word_of_int n))))"
  using assms by (rule fExp2_anatomy)

lemma not_nan_neg1: "\<not> is_nan (dec32 (flit (- 1)))"
  by code_simp

theorem fExp2_split_witness:
  "\<exists>n s m. dec32 (fsub (fmax (fmin (flit (- 1)) f_HI) f_LOW) (flit (1 / 2))) = Fin s m \<and>
    n = (if s then - \<lfloor>m\<rfloor> else \<lfloor>m\<rfloor>) \<and> - 127 \<le> n \<and> n \<le> 128 \<and>
    fExp2 (flit (- 1)) = Some (fmul (word_of_int ((n + 127) * 2 ^ 23))
      (POLYEXP (fsub (fmax (fmin (flit (- 1)) f_HI) f_LOW) (i2f (word_of_int n))))) \<and>
    dec32 (word_of_int ((n + 127) * 2 ^ 23)) =
      (if n = 128 then Inf False else if n = - 127 then Fin False 0 else Fin False (pow2 n)) \<and>
    in_range (- (1 / 2)) (3 / 2)
      (dec32 (fsub (fmax (fmin (flit (- 1)) f_HI) f_LOW) (i2f (word_of_int n))))"
  using fExp2_split [OF not_nan_neg1] .

subsection \<open>C4: the range reduction of \<open>fSin\<close>\<close>

text \<open>
  Claim C4 says that under \<open>FAST_TRIG\<close>, for every finite \<open>x\<close>, the value that \<open>fSin\<close>
  feeds to the parabola lies in \<open>[-\<pi>, \<pi>]\<close>.  The float modulo is approximate: for
  \<open>x = 1e9\<close> the reduced value is \<open>-57.716\<close>.  And the interval is reached only up to the
  rounding of \<open>\<pi>\<close>: for \<open>x = (float)M_PI\<close> the reduced value is \<open>-(float)M_PI\<close>, which is
  below the \<open>double\<close> \<open>-M_PI\<close>.
\<close>

theorem fSin_reduce_counterexample:
  "is_finite (dec32 (flit (10 ^ 9))) \<and>
   map_option dec32 (fSin_reduce (flit (10 ^ 9))) = Some (Fin True (15130117 / 262144)) \<and>
   fv_lt (Fin True (15130117 / 262144)) (fv_neg M_PI) \<and>
   map_option dec32 (fSin_reduce (d2f M_PI)) = Some (Fin True (13176795 / 4194304)) \<and>
   fv_lt (Fin True (13176795 / 4194304)) (fv_neg M_PI)"
  by code_simp

lemma dec32_pi: "dec32 (d2f M_PI) = Fin False (13176795 / 4194304)"
  by code_simp

text \<open>
  Claim C4, amended: under \<open>FAST_TRIG\<close>, for every float \<open>x\<close> with \<open>|x| \<le> 2^25\<close>, the
  reduction of \<open>fSin\<close> is defined and the value \<open>r\<close> it feeds to the parabola is finite
  with \<open>-(float)M_PI \<le> r \<le> (float)M_PI\<close>, where \<open>(float)M_PI = 13176795 / 2^22\<close> is the
  float nearest to \<open>\<pi>\<close>.
\<close>

theorem fSin_reduces:
  assumes "in_range (- 33554432) 33554432 (dec32 x)"
  shows "\<exists>r. fSin_reduce x = Some r \<and>
    in_range (- (13176795 / 4194304)) (13176795 / 4194304) (dec32 r) \<and>
    (FAST_TRIG B \<longrightarrow> fSin B x = Some (fSin_parabola r)) \<and>
    dec32 (d2f M_PI) = Fin False (13176795 / 4194304)"
proof -
  from in_range_fSin_reduce [OF assms] obtain r
    where r: "fSin_reduce x = Some r"
      "in_range (- (13176795 / 4194304)) (13176795 / 4194304) (dec32 r)" by blast
  then show ?thesis using dec32_pi by (auto simp: fSin_def)
qed

lemma in_range_100: "in_range (- 33554432) 33554432 (dec32 (flit 100))"
  by code_simp

theorem fSin_reduces_witness:
  "\<exists>r. fSin_reduce (flit 100) = Some r \<and>
    in_range (- (13176795 / 4194304)) (13176795 / 4194304) (dec32 r) \<and>
    fSin \<lparr>FAST_MATH = True, FAST_TRIG = True, std_sin = (\<lambda>x. x), std_cos = (\<lambda>x. x),
      std_isqrt = (\<lambda>x. x), std_sqrt = (\<lambda>x. x)\<rparr> (flit 100) = Some (fSin_parabola r)"
  using fSin_reduces [OF in_range_100, of "\<lparr>FAST_MATH = True, FAST_TRIG = True,
      std_sin = (\<lambda>x. x), std_cos = (\<lambda>x. x), std_isqrt = (\<lambda>x. x), std_sqrt = (\<lambda>x. x)\<rparr>"]
  by auto

subsection \<open>C5: the sum of \<open>fAcos\<close> and \<open>fAsin\<close>\<close>

text \<open>
  Claim C5 says that \<open>fAcos(x) + fAsin(x) == \<pi>/2\<close> exactly, in float arithmetic, for
  every \<open>x\<close> in \<open>[-1, 1]\<close>.  The difference \<open>(float)M_PI_2 - fAsin(x)\<close> is rounded, and
  adding \<open>fAsin(x)\<close> back rounds again: at \<open>x = 0.25\<close> the sum is \<open>0x3FC90FDA\<close>, one unit
  in the last place below \<open>(float)M_PI_2 = 0x3FC90FDB\<close>.
\<close>

theorem fAcos_fAsin_sum_counterexample:
  "in_range (- 1) 1 (dec32 (flit (1 / 4))) \<and>
   fadd (fAcos (flit (1 / 4))) (fAsin (flit (1 / 4))) = 0x3FC90FDA \<and>
   d2f M_PI_2 = 0x3FC90FDB"
  by code_simp

text \<open>
  Claim C5, amended: for every float \<open>x\<close> in \<open>[-1, 1]\<close>, \<open>fAcos(x)\<close> is the float
  difference \<open>(float)M_PI_2 - fAsin(x)\<close>, where \<open>(float)M_PI_2 = 13176795 / 2^23\<close>, and the
  float sum \<open>fAcos(x) + fAsin(x)\<close> is finite and within \<open>2^-23\<close>, one unit in the last
  place, of \<open>(float)M_PI_2\<close>.
\<close>

theorem fAcos_fAsin_sum:
  assumes "in_range (- 1) 1 (dec32 x)"
  shows "fAcos x = fsub (d2f M_PI_2) (fAsin x) \<and>
    dec32 (d2f M_PI_2) = Fin False (13176795 / 8388608) \<and>
    in_range (13176794 / 8388608) (13176796 / 8388608) (dec32 (fadd (fAcos x) (fAsin x)))"
  using fAcos_plus_fAsin [OF assms] by (simp add: fAcos_def dec32_pi_2)

lemma in_range_quarter: "in_range (- 1) 1 (dec32 (flit (1 / 4)))"
  by code_simp

theorem fAcos_fAsin_sum_witness:
  "fAcos (flit (1 / 4)) = fsub (d2f M_PI_2) (fAsin (flit (1 / 4))) \<and>
   dec32 (d2f M_PI_2) = Fin False (13176795 / 8388608) \<and>
   in_range (13176794 / 8388608) (13176796 / 8388608)
     (dec32 (fadd (fAcos (flit (1 / 4))) (fAsin (flit (1 / 4)))))"
  using fAcos_fAsin_sum [OF in_range_quarter] .

subsection \<open>C6: the clamp of \<open>fExp2\<close>\<close>

lemma fExp2_above:
  assumes "flt f_HI x"
  shows "fExp2 x = fExp2 f_HI"
proof -
  have "fmin x f_HI = f_HI" using assms by (simp add: fmin_def)
  moreover have "fmin f_HI f_HI = f_HI" by (simp add: fmin_def)
  ultimately show ?thesis by (simp add: fExp2_def)
qed

lemma fExp2_below:
  assumes "flt x f_LOW"
  shows "fExp2 x = fExp2 f_LOW"
proof -
  have "\<not> flt f_HI x"
    using assms flt_LOW_HI fv_lt_trans fv_lt_irrefl unfolding flt_def by blast
  then have "fmin x f_HI = x" by (simp add: fmin_def)
  moreover have "fmax x f_LOW = f_LOW" using assms by (simp add: fmax_def)
  moreover have "fmin f_LOW f_HI = f_LOW" using not_flt_HI_LOW by (simp add: fmin_def)
  moreover have "fmax f_LOW f_LOW = f_LOW" by (simp add: fmax_def)
  ultimately show ?thesis by (simp add: fExp2_def)
qed

lemma flt_HI_200: "flt f_HI (flit 200)"
  by code_simp

lemma flt_neg200_LOW: "flt (fneg (flit 200)) f_LOW"
  by code_simp

text \<open>
  Claim C6: for every float \<open>x\<close> greater than \<open>129.0f\<close>, \<open>fExp2(x) = fExp2(129.0f)\<close>, and
  for every float \<open>x\<close> less than \<open>-126.99999f\<close>, \<open>fExp2(x) = fExp2(-126.99999f)\<close>.  The
  comparisons are those of the type \<open>float\<close>, so \<open>x\<close> may be infinite; the results are
  equal as results of the function, undefined behaviour included.
\<close>

theorem fExp2_clamps:
  "(flt f_HI x \<longrightarrow> fExp2 x = fExp2 f_HI) \<and> (flt x f_LOW \<longrightarrow> fExp2 x = fExp2 f_LOW)"
  using fExp2_above fExp2_below by blast

text \<open>In particular \<open>fExp2(200) = fExp2(129.0)\<close> and \<open>fExp2(-200) = fExp2(-126.99999)\<close>.\<close>

theorem fExp2_clamps_witness:
  "flt f_HI (flit 200) \<and> fExp2 (flit 200) = fExp2 f_HI \<and>
   flt (fneg (flit 200)) f_LOW \<and> fExp2 (fneg (flit 200)) = fExp2 f_LOW"
  using fExp2_clamps [of "flit 200"] fExp2_clamps [of "fneg (flit 200)"]
    flt_HI_200 flt_neg200_LOW by blast

subsection \<open>C7: the cosine is the shifted sine\<close>

text \<open>
  Claim C7: under \<open>FAST_TRIG\<close>, for every float \<open>x\<close> the result of \<open>fCos(x)\<close> is bit for
  bit the result of \<open>fSin(x + (float)M_PI_2)\<close>, the sum being the \<open>float\<close> addition the
  source writes; where the conversion to \<open>int\<close> inside \<open>fSin\<close> is undefined, it is so
  for both.
\<close>

theorem fCos_is_shifted_fSin:
  "FAST_TRIG B \<Longrightarrow> fCos B x = fSin B (fadd x (d2f M_PI_2))"
  by (simp add: fCos_def)

theorem fCos_is_shifted_fSin_witness:
  "fCos \<lparr>FAST_MATH = True, FAST_TRIG = True, std_sin = (\<lambda>x. x), std_cos = (\<lambda>x. x),
      std_isqrt = (\<lambda>x. x), std_sqrt = (\<lambda>x. x)\<rparr> (flit 1)
   = fSin \<lparr>FAST_MATH = True, FAST_TRIG = True, std_sin = (\<lambda>x. x), std_cos = (\<lambda>x. x),
      std_isqrt = (\<lambda>x. x), std_sqrt = (\<lambda>x. x)\<rparr> (fadd (flit 1) (d2f M_PI_2))"
  using fCos_is_shifted_fSin [of "\<lparr>FAST_MATH = True, FAST_TRIG = True, std_sin = (\<lambda>x. x),
      std_cos = (\<lambda>x. x), std_isqrt = (\<lambda>x. x), std_sqrt = (\<lambda>x. x)\<rparr>" "flit 1"]
  by simp

subsection \<open>C8: the square root is two Babylonian steps\<close>

text \<open>
  Claim C8: for every float \<open>x \<ge> 0\<close> (a positive finite number, a zero of either sign
  or \<open>+\<infinity>\<close>), \<open>bab2xSqrt(x)\<close>, which computes \<open>a = a + x/a\<close> and then \<open>0.25*a + x/a\<close>
  from the seed \<open>(1<<29) + (bits(x) >> 1) - (1<<22)\<close>, returns bit for bit the float that
  two iterations of \<open>a = 0.5*(a + x/a)\<close> from the same seed return, every operation
  rounded to \<open>float\<close>; the integer arithmetic of the seed does not overflow.  For a
  finite \<open>x\<close> the common result is a finite number; for \<open>+\<infinity>\<close> both computations
  end in \<open>\<infinity>/\<infinity>\<close>, a NaN.
\<close>

theorem bab2xSqrt_two_steps:
  assumes "\<not> is_nan (dec32 x)" "\<not> flt x (flit 0)"
  shows "\<exists>r. bab2xSqrt x = Some r \<and> bab2x_spec x = Some r \<and>
    (is_finite (dec32 x) \<longrightarrow> is_finite (dec32 r))"
proof -
  from nonneg_cases [OF assms]
  consider "uint x < 2139095040" | "x = 0x7F800000" | "x = 0x80000000" by blast
  then show ?thesis
  proof cases
    case 1
    from bab2xSqrt_pos [OF this] show ?thesis by blast
  next
    case 2
    show ?thesis unfolding 2 using bab2xSqrt_inf by blast
  next
    case 3
    show ?thesis unfolding 3 using bab2xSqrt_neg_zero by blast
  qed
qed

lemma bab2xSqrt_four:
  "\<not> is_nan (dec32 (flit 4))" "\<not> flt (flit 4) (flit 0)" "is_finite (dec32 (flit 4))"
  "bab2xSqrt (flit 4) = Some 0x40000000"
  by code_simp+

theorem bab2xSqrt_two_steps_witness:
  "bab2xSqrt (flit 4) = Some 0x40000000 \<and> bab2x_spec (flit 4) = Some 0x40000000 \<and>
   is_finite (dec32 0x40000000)"
  using bab2xSqrt_two_steps [OF bab2xSqrt_four(1,2)] bab2xSqrt_four(3,4) by auto

subsection \<open>C9: \<open>fLog2\<close> is total\<close>

lemma sint_log_exp:
  "0 \<le> sint (ishr (x AND LOG_EXP) 23) \<and> sint (ishr (x AND LOG_EXP) 23) \<le> 255"
proof -
  define v where "v = uint (x AND LOG_EXP)"
  have v: "0 \<le> v" "v \<le> 0x7F800000"
    using uint_and_const [of x LOG_EXP] by (simp_all add: v_def LOG_EXP_def)
  then have "sint (x AND LOG_EXP) = v" unfolding v_def by (intro sint_eq_uint32) simp
  then have s: "sint (ishr (x AND LOG_EXP) 23) = v div 2 ^ 23"
    by (simp add: ishr_def sint_signed_drop_bit_eq drop_bit_eq_div)
  have "v div 2 ^ 23 \<le> 0x7F800000 div 2 ^ 23" using v(2) by (intro zdiv_mono1) simp_all
  moreover have "0 \<le> v div 2 ^ 23" using v(1) by (simp add: pos_imp_zdiv_nonneg_iff)
  ultimately show ?thesis unfolding s by simp
qed

text \<open>
  Claim C9: \<open>fLog2\<close> is total over every 32-bit pattern, zero, negative and non-finite
  inputs included: the extraction of the exponent and of the fraction and the arithmetic
  after it have no undefined case, and the result is a well-defined float.  More
  precisely the result is finite, of magnitude at most 256, because the fraction is
  forced into \<open>[1, 2)\<close> and the exponent field lies between 0 and 255.
\<close>

theorem fLog2_total:
  "\<exists>y. fLog2 x = Some y \<and> is_finite (dec32 y) \<and> in_range (- 256) 256 (dec32 y)"
proof -
  define w where "w = ishr (x AND LOG_EXP) 23"
  define m where "m = (x AND LOG_MANT) OR 0x3F800000"
  have w: "0 \<le> sint w" "sint w \<le> 255" using sint_log_exp [of x] by (simp_all add: w_def)
  have "in_int (sint w - sint (127 :: 32 word))" using w by (simp add: in_int_def)
  from isub_Some [OF this]
  have ex: "isub w 127 = Some (w - 127)" and sx: "sint (w - 127) = sint w - 127" by simp_all
  define k where "k = sint w - 127"
  have k: "- 127 \<le> k" "k \<le> 128" using w by (simp_all add: k_def)
  have "(of_int (- 127) :: rat) \<le> of_int k" "(of_int k :: rat) \<le> of_int 128"
    using k by (simp_all only: of_int_le_iff)
  then have kr: "(- 127 :: rat) \<le> of_int k" "(of_int k :: rat) \<le> 128" by simp_all
  have e: "in_range (- 127) 128 (dec32 (i2f (w - 127)))"
    unfolding dec32_i2f sx k_def [symmetric]
    by (rule in_range_fv_of_rat [OF kr]) (simp_all add: exact32_consts)
  have rm: "in_range 1 2 (dec32 m)" unfolding m_def LOG_MANT_def by (rule in_range_mant_one)
  have p: "in_range (- 32) 32 (dec32 (POLYLOG m))" using rm by (rule in_range_POLYLOG)
  have one: "in_range 1 1 (dec32 0x3F800000)" by (simp add: dec32_one sval_def)
  have d: "in_range 0 1 (dec32 (fsub m 0x3F800000))"
    unfolding dec32_fsub
    by (rule in_range_fv_sub [OF rm one]) (simp_all add: exact32_consts)
  have pd: "in_range (- 32) 32 (dec32 (fmul (POLYLOG m) (fsub m 0x3F800000)))"
    unfolding dec32_fmul
    by (rule in_range_fv_mul [OF p d]) (simp_all add: exact32_consts)
  have r: "in_range (- 256) 256 (dec32 (fadd (fmul (POLYLOG m) (fsub m 0x3F800000)) (i2f (w - 127))))"
    unfolding dec32_fadd
    by (rule in_range_fv_add [OF pd e]) (simp_all add: exact32_consts)
  have "fLog2 x = Some (fadd (fmul (POLYLOG m) (fsub m 0x3F800000)) (i2f (w - 127)))"
    by (simp add: fLog2_def Let_def flit_1 w_def [symmetric] ex m_def LOG_MANT_def)
  then show ?thesis using r in_range_finite by blast
qed

subsection \<open>C10: the inverse square root of zero\<close>

lemma iSqrt_0: "iSqrt (flit 0) = Some 0x5F898367"
  by code_simp

lemma iSqrt_0_val: "dec32 0x5F898367 = Fin False 19817753709685768192"
  by code_simp

text \<open>
  Claim C10: \<open>iSqrt(0.0f)\<close>, and so \<open>fISqrt(0.0f)\<close> under \<open>FAST_MATH\<close>, is a finite
  positive float, about \<open>1.98e19\<close>, not an infinity: the seed \<open>0x5f3759df\<close> is a finite
  float, and the Newton step multiplies it by \<open>1.5 - 0\<close>.
\<close>

theorem iSqrt_zero_finite:
  "iSqrt (flit 0) = Some 0x5F898367 \<and>
   dec32 0x5F898367 = Fin False 19817753709685768192 \<and>
   (FAST_MATH B \<longrightarrow> fISqrt B (flit 0) = Some 0x5F898367)"
  by (simp add: iSqrt_0 iSqrt_0_val fISqrt_def)

theorem iSqrt_zero_finite_witness:
  "fISqrt \<lparr>FAST_MATH = True, FAST_TRIG = True, std_sin = (\<lambda>x. x), std_cos = (\<lambda>x. x),
      std_isqrt = (\<lambda>x. x), std_sqrt = (\<lambda>x. x)\<rparr> (flit 0) = Some 0x5F898367"
  using iSqrt_zero_finite [of "\<lparr>FAST_MATH = True, FAST_TRIG = True, std_sin = (\<lambda>x. x),
      std_cos = (\<lambda>x. x), std_isqrt = (\<lambda>x. x), std_sqrt = (\<lambda>x. x)\<rparr>"]
  by simp

end
